theory Spec2Isabelle
  imports Main "HOL-Library.Word"
begin

section \<open>Memory model\<close>

text \<open>
  Both starters (\<^verbatim>\<open>c-linkedlist/memo/linked_list.c\<close> and
  \<^verbatim>\<open>cpp-linkedlist/memo/LinkedList.cpp\<close>) build a singly linked list of
  heap-allocated nodes. A pointer to a node is \<open>addr option\<close> (\<open>None\<close> is the null
  pointer). The node store is a list of cells indexed by address: \<open>Some n\<close> is a live
  node, \<open>None\<close> a free cell, and every address beyond the end of the list is free.
  Reading through a null pointer or a pointer to a free cell is a fault, so every
  dereference of the source is a branch of the model.

  Allocation never fails in this model: the store grows as needed, and the
  specification sets allocation failure aside as fatal. A \<^verbatim>\<open>size_t\<close> is a \<open>nat\<close>:
  the counter \<^verbatim>\<open>size\<close> counts live nodes, which a 64-bit counter cannot run out of
  before the address space does, and an index is compared with it before any
  arithmetic. The element type \<^verbatim>\<open>int\<close> is a 32-bit word; the code only stores and
  copies elements.
\<close>

type_synonym addr = nat

type_synonym cint = "32 word"

record Node =
  "value" :: cint
  "next" :: "addr option"

record LinkedList =
  head :: "addr option"
  tail :: "addr option"
  size :: nat

datatype fault = NullDeref | DanglingDeref | InvalidFree

type_synonym heap = "Node option list"

definition hget :: "heap \<Rightarrow> addr \<Rightarrow> Node option" where
  "hget h a = (if a < length h then h ! a else None)"

definition hput :: "heap \<Rightarrow> addr \<Rightarrow> Node \<Rightarrow> heap" where
  "hput h a n =
     (if a < length h then h[a := Some n]
      else h @ replicate (a - length h) None @ [Some n])"

text \<open>The allocator hands out the lowest free address, so a freed cell is reused by
  the next allocation: a stale pointer to it then aliases the new node. The proofs
  use one fact about it only, that the cell it returns is free (\<open>hget_malloc\<close>).\<close>

definition malloc :: "heap \<Rightarrow> addr" where
  "malloc h = length (takeWhile (\<lambda>c. c \<noteq> None) h)"

definition deref :: "heap \<Rightarrow> addr option \<Rightarrow> fault + Node" where
  "deref h p =
     (case p of
        None \<Rightarrow> Inl NullDeref
      | Some a \<Rightarrow> (case hget h a of None \<Rightarrow> Inl DanglingDeref | Some n \<Rightarrow> Inr n))"

definition free :: "heap \<Rightarrow> addr option \<Rightarrow> fault + heap" where
  "free h p =
     (case p of
        None \<Rightarrow> Inr h
      | Some a \<Rightarrow> (case hget h a of None \<Rightarrow> Inl InvalidFree | Some n \<Rightarrow> Inr (h[a := None])))"

text \<open>\<^verbatim>\<open>p->next = q\<close>\<close>

definition set_next :: "heap \<Rightarrow> addr option \<Rightarrow> addr option \<Rightarrow> fault + heap" where
  "set_next h p q =
     (case deref h p of
        Inl e \<Rightarrow> Inl e
      | Inr n \<Rightarrow> Inr (hput h (the p) (n\<lparr>next := q\<rparr>)))"

section \<open>The C list: \<^verbatim>\<open>c-linkedlist/memo/linked_list.c\<close>\<close>

text \<open>
  A function taking one \<^verbatim>\<open>LinkedList*\<close> is modelled by state passing: it takes the node
  store and the struct and returns the updated pair, or the fault. The result flag of
  the \<^verbatim>\<open>int\<close>-returning functions is kept as an \<open>int\<close> (0 or 1).

  An \<^verbatim>\<open>int* out\<close> parameter is \<open>'p option\<close> (\<open>None\<close> is \<^verbatim>\<open>NULL\<close>); the store
  \<^verbatim>\<open>*out = v\<close> that a call performs is returned as \<open>Some (p, v)\<close>, and \<open>None\<close> when
  the call writes nothing.
\<close>

definition ll_init :: "LinkedList" where
  "ll_init = \<lparr>head = None, tail = None, size = 0\<rparr>"

definition ll_empty :: "LinkedList \<Rightarrow> int" where
  "ll_empty l = (if size l = 0 then 1 else 0)"

definition ll_size :: "LinkedList \<Rightarrow> nat" where
  "ll_size l = size l"

text \<open>The loop of \<^verbatim>\<open>ll_clear\<close>: \<^verbatim>\<open>while(n){ nx=n->next; free(n); n=nx; }\<close>.
  Every iteration frees a live cell, so the loop ends on every store.\<close>

function free_nodes :: "heap \<Rightarrow> addr option \<Rightarrow> fault + heap" where
  "free_nodes h n =
     (case n of
        None \<Rightarrow> Inr h
      | Some a \<Rightarrow>
          (case deref h n of
             Inl e \<Rightarrow> Inl e
           | Inr nd \<Rightarrow>
               (case free h n of
                  Inl e \<Rightarrow> Inl e
                | Inr h1 \<Rightarrow> free_nodes h1 (next nd))))"
  by pat_completeness auto

definition live :: "heap \<Rightarrow> nat" where
  "live h = length (filter (\<lambda>c. c \<noteq> None) h)"

lemma live_free_less:
  assumes "hget h a = Some n"
  shows "live (h[a := None]) < live h"
proof -
  from assms have a: "a < length h" and ha: "h ! a = Some n"
    by (auto simp: hget_def split: if_splits)
  have h: "h = take a h @ (h ! a) # drop (Suc a) h"
    using a by (simp add: id_take_nth_drop)
  have "h[a := None] = take a h @ None # drop (Suc a) h"
    using a by (simp add: upd_conv_take_nth_drop)
  then have "live (h[a := None]) = live (take a h) + live (drop (Suc a) h)"
    by (simp add: live_def)
  moreover have "live h = live (take a h) + 1 + live (drop (Suc a) h)"
    by (subst h) (simp add: live_def ha)
  ultimately show ?thesis by simp
qed

termination free_nodes
proof (relation "measure (\<lambda>(h, n). live h)")
  show "wf (measure (\<lambda>(h, n). live h))" by simp
next
  fix h :: heap and n :: "addr option" and a nd h1
  assume "n = Some a" and "deref h n = Inr nd" and "free h n = Inr h1"
  then show "((h1, next nd), (h, n)) \<in> measure (\<lambda>(h, n). live h)"
    by (auto simp: free_def deref_def live_free_less split: option.splits)
qed

declare free_nodes.simps [simp del]

definition ll_clear :: "heap \<Rightarrow> LinkedList \<Rightarrow> fault + heap \<times> LinkedList" where
  "ll_clear h l =
     (case free_nodes h (head l) of
        Inl e \<Rightarrow> Inl e
      | Inr h1 \<Rightarrow> Inr (h1, l\<lparr>head := None, tail := None, size := 0\<rparr>))"

definition ll_push_front :: "heap \<Rightarrow> LinkedList \<Rightarrow> cint \<Rightarrow> fault + heap \<times> LinkedList" where
  "ll_push_front h l v =
     (let n = malloc h;
          h1 = hput h n \<lparr>value = v, next = head l\<rparr>;
          l1 = l\<lparr>head := Some n\<rparr>;
          l2 = (if tail l1 = None then l1\<lparr>tail := Some n\<rparr> else l1)
      in Inr (h1, l2\<lparr>size := size l2 + 1\<rparr>))"

definition ll_push_back :: "heap \<Rightarrow> LinkedList \<Rightarrow> cint \<Rightarrow> fault + heap \<times> LinkedList" where
  "ll_push_back h l v =
     (let n = malloc h;
          h1 = hput h n \<lparr>value = v, next = None\<rparr>
      in if tail l = None
         then Inr (h1, l\<lparr>head := Some n, tail := Some n, size := size l + 1\<rparr>)
         else (case set_next h1 (tail l) (Some n) of
                 Inl e \<Rightarrow> Inl e
               | Inr h2 \<Rightarrow> Inr (h2, l\<lparr>tail := Some n, size := size l + 1\<rparr>)))"

text \<open>\<^verbatim>\<open>ll_pop_front\<close> frees the old head after reading it. \<^verbatim>\<open>l->size--\<close> is reached
  with a non-null head only; on a well-formed list the size is positive there.\<close>

definition ll_pop_front ::
  "heap \<Rightarrow> LinkedList \<Rightarrow> 'p option \<Rightarrow> fault + int \<times> ('p \<times> cint) option \<times> heap \<times> LinkedList" where
  "ll_pop_front h l out =
     (if head l = None then Inr (0, None, h, l)
      else (case deref h (head l) of
              Inl e \<Rightarrow> Inl e
            | Inr n \<Rightarrow>
                (let l1 = l\<lparr>head := next n\<rparr>;
                     l2 = (if head l1 = None then l1\<lparr>tail := None\<rparr> else l1);
                     w = (case out of None \<Rightarrow> None | Some p \<Rightarrow> Some (p, value n))
                 in case free h (head l) of
                      Inl e \<Rightarrow> Inl e
                    | Inr h1 \<Rightarrow> Inr (1, w, h1, l2\<lparr>size := size l2 - 1\<rparr>))))"

definition ll_front :: "heap \<Rightarrow> LinkedList \<Rightarrow> 'p option \<Rightarrow> fault + int \<times> ('p \<times> cint) option" where
  "ll_front h l out =
     (if head l = None then Inr (0, None)
      else (case out of
              None \<Rightarrow> Inr (1, None)
            | Some p \<Rightarrow>
                (case deref h (head l) of
                   Inl e \<Rightarrow> Inl e
                 | Inr n \<Rightarrow> Inr (1, Some (p, value n)))))"

definition ll_back :: "heap \<Rightarrow> LinkedList \<Rightarrow> 'p option \<Rightarrow> fault + int \<times> ('p \<times> cint) option" where
  "ll_back h l out =
     (if tail l = None then Inr (0, None)
      else (case out of
              None \<Rightarrow> Inr (1, None)
            | Some p \<Rightarrow>
                (case deref h (tail l) of
                   Inl e \<Rightarrow> Inl e
                 | Inr n \<Rightarrow> Inr (1, Some (p, value n)))))"

text \<open>The traversal of \<^verbatim>\<open>ll_insert\<close> and \<^verbatim>\<open>ll_erase\<close>:
  \<^verbatim>\<open>for(size_t i=0;i<index-1;i++) prev=prev->next;\<close>. It is reached with
  \<open>index \<ge> 1\<close> only, so \<open>index - 1\<close> does not wrap.\<close>

function ll_seek :: "heap \<Rightarrow> nat \<Rightarrow> nat \<Rightarrow> addr option \<Rightarrow> fault + addr option" where
  "ll_seek h index i prev =
     (if i < index - 1
      then (case deref h prev of
              Inl e \<Rightarrow> Inl e
            | Inr n \<Rightarrow> ll_seek h index (i + 1) (next n))
      else Inr prev)"
  by pat_completeness auto

termination
  by (relation "measure (\<lambda>(h, index, i, prev). index - 1 - i)") auto

declare ll_seek.simps [simp del]

text \<open>In the general case of \<^verbatim>\<open>ll_insert\<close> the new node is allocated first (its
  \<^verbatim>\<open>next\<close> field holds no pointer yet), then \<^verbatim>\<open>n->next=prev->next; prev->next=n;\<close>
  read and write through \<^verbatim>\<open>prev\<close>.\<close>

definition ll_insert :: "heap \<Rightarrow> LinkedList \<Rightarrow> nat \<Rightarrow> cint \<Rightarrow> fault + int \<times> heap \<times> LinkedList" where
  "ll_insert h l index v =
     (if index > size l then Inr (0, h, l)
      else if index = 0
      then (case ll_push_front h l v of Inl e \<Rightarrow> Inl e | Inr (h1, l1) \<Rightarrow> Inr (1, h1, l1))
      else if index = size l
      then (case ll_push_back h l v of Inl e \<Rightarrow> Inl e | Inr (h1, l1) \<Rightarrow> Inr (1, h1, l1))
      else (case ll_seek h index 0 (head l) of
              Inl e \<Rightarrow> Inl e
            | Inr prev \<Rightarrow>
                (let n = malloc h;
                     h1 = hput h n \<lparr>value = v, next = None\<rparr>
                 in case deref h1 prev of
                      Inl e \<Rightarrow> Inl e
                    | Inr p \<Rightarrow>
                        (case set_next h1 (Some n) (next p) of
                           Inl e \<Rightarrow> Inl e
                         | Inr h2 \<Rightarrow>
                             (case set_next h2 prev (Some n) of
                                Inl e \<Rightarrow> Inl e
                              | Inr h3 \<Rightarrow> Inr (1, h3, l\<lparr>size := size l + 1\<rparr>))))))"

definition ll_erase :: "heap \<Rightarrow> LinkedList \<Rightarrow> nat \<Rightarrow> fault + int \<times> heap \<times> LinkedList" where
  "ll_erase h l index =
     (if index \<ge> size l then Inr (0, h, l)
      else if index = 0
      then (case ll_pop_front h l (Some ()) of
              Inl e \<Rightarrow> Inl e
            | Inr (r, w, h1, l1) \<Rightarrow> Inr (r, h1, l1))
      else (case ll_seek h index 0 (head l) of
              Inl e \<Rightarrow> Inl e
            | Inr prev \<Rightarrow>
                (case deref h prev of
                   Inl e \<Rightarrow> Inl e
                 | Inr p \<Rightarrow>
                     (let victim = next p
                      in case deref h victim of
                           Inl e \<Rightarrow> Inl e
                         | Inr vn \<Rightarrow>
                             (case set_next h prev (next vn) of
                                Inl e \<Rightarrow> Inl e
                              | Inr h1 \<Rightarrow>
                                  (let l1 = (if victim = tail l then l\<lparr>tail := prev\<rparr> else l)
                                   in case free h1 victim of
                                        Inl e \<Rightarrow> Inl e
                                      | Inr h2 \<Rightarrow> Inr (1, h2, l1\<lparr>size := size l1 - 1\<rparr>)))))))"

text \<open>\<^verbatim>\<open>ll_copy\<close>: the local \<^verbatim>\<open>dst\<close> is initialised and then filled by the loop
  \<^verbatim>\<open>for(Node* n=src->head;n;n=n->next) ll_push_back(&dst, n->value);\<close>.
  The loop follows \<^verbatim>\<open>next\<close> links of a store that it extends, and need not end
  on a cyclic chain: not returning is the value \<open>None\<close>.\<close>

partial_function (option) ll_copy_loop ::
  "heap \<Rightarrow> LinkedList \<Rightarrow> addr option \<Rightarrow> (fault + heap \<times> LinkedList) option" where
  "ll_copy_loop h dst n =
     (case n of
        None \<Rightarrow> Some (Inr (h, dst))
      | Some a \<Rightarrow>
          (case deref h n of
             Inl e \<Rightarrow> Some (Inl e)
           | Inr nd \<Rightarrow>
               (case ll_push_back h dst (value nd) of
                  Inl e \<Rightarrow> Some (Inl e)
                | Inr (h1, dst1) \<Rightarrow>
                    (case deref h1 n of
                       Inl e \<Rightarrow> Some (Inl e)
                     | Inr nd1 \<Rightarrow> ll_copy_loop h1 dst1 (next nd1)))))"

definition ll_copy :: "heap \<Rightarrow> LinkedList \<Rightarrow> (fault + heap \<times> LinkedList) option" where
  "ll_copy h src = ll_copy_loop h ll_init (head src)"

text \<open>\<^verbatim>\<open>ll_move_from\<close> returns the struct it read and leaves \<^verbatim>\<open>*src\<close> initialised:
  the result is the pair (returned list, new \<^verbatim>\<open>*src\<close>).\<close>

definition ll_move_from :: "LinkedList \<Rightarrow> LinkedList \<times> LinkedList" where
  "ll_move_from src = (let dst = src in (dst, ll_init))"

text \<open>The harness prints a list by walking it (\<^verbatim>\<open>print_list\<close> in
  \<^verbatim>\<open>c-linkedlist/main/main.c\<close>); the values it prints, in order, are the C list's
  sequence of values.\<close>

partial_function (option) print_list_loop ::
  "heap \<Rightarrow> addr option \<Rightarrow> cint list \<Rightarrow> (fault + cint list) option" where
  "print_list_loop h n printed =
     (case n of
        None \<Rightarrow> Some (Inr printed)
      | Some a \<Rightarrow>
          (case deref h n of
             Inl e \<Rightarrow> Some (Inl e)
           | Inr nd \<Rightarrow> print_list_loop h (next nd) (printed @ [value nd])))"

definition print_list :: "heap \<Rightarrow> LinkedList \<Rightarrow> (fault + cint list) option" where
  "print_list h lst = print_list_loop h (head lst) []"

subsection \<open>List objects and aliasing\<close>

text \<open>
  \<^verbatim>\<open>ll_move_assign_from(dst, src)\<close> takes two pointers that may name the same
  object. The list objects therefore live in a store of their own, indexed by the
  pointer to them, and the function reads and writes through it statement by
  statement: \<^verbatim>\<open>ll_clear(dst); *dst=*src; ll_init(src);\<close>.
\<close>

type_synonym lptr = nat

record state =
  nodes :: heap
  lists :: "lptr \<Rightarrow> LinkedList"

definition ll_move_assign_from :: "state \<Rightarrow> lptr \<Rightarrow> lptr \<Rightarrow> fault + state" where
  "ll_move_assign_from s dst src =
     (case ll_clear (nodes s) (lists s dst) of
        Inl e \<Rightarrow> Inl e
      | Inr (h1, d1) \<Rightarrow>
          (let ls1 = (lists s)(dst := d1);
               ls2 = ls1(dst := ls1 src);
               ls3 = ls2(src := ll_init)
           in Inr \<lparr>nodes = h1, lists = ls3\<rparr>))"

section \<open>The C++ list: \<^verbatim>\<open>cpp-linkedlist/memo/LinkedList.cpp\<close>\<close>

text \<open>
  The members \<^verbatim>\<open>head_\<close>, \<^verbatim>\<open>tail_\<close>, \<^verbatim>\<open>size_\<close> are the fields of the same record.
  \<^verbatim>\<open>new Node(v)\<close> allocates a node with value \<open>v\<close> and a null \<^verbatim>\<open>next\<close>;
  \<^verbatim>\<open>delete n\<close> frees it. Dereferencing a null pointer, which C++ leaves undefined,
  is the fault \<open>NullDeref\<close>. Three members are renamed, since their names are taken:
  \<^verbatim>\<open>size()\<close> is \<open>size_of\<close>, \<^verbatim>\<open>insert\<close> is \<open>insert_at\<close>, and the destructor is
  \<open>dtor\<close>. \<^verbatim>\<open>front()\<close> and \<^verbatim>\<open>back()\<close> return a reference; the model returns the
  value read through it.
\<close>

definition new_Node :: "heap \<Rightarrow> cint \<Rightarrow> addr \<times> heap" where
  "new_Node h v = (let n = malloc h in (n, hput h n \<lparr>value = v, next = None\<rparr>))"

definition LinkedList_ctor :: "LinkedList" where
  "LinkedList_ctor = \<lparr>head = None, tail = None, size = 0\<rparr>"

definition empty :: "LinkedList \<Rightarrow> bool" where
  "empty l = (size l = 0)"

definition clear :: "heap \<Rightarrow> LinkedList \<Rightarrow> fault + heap \<times> LinkedList" where
  "clear h l =
     (case free_nodes h (head l) of
        Inl e \<Rightarrow> Inl e
      | Inr h1 \<Rightarrow> Inr (h1, l\<lparr>head := None, tail := None, size := 0\<rparr>))"

definition push_front :: "heap \<Rightarrow> LinkedList \<Rightarrow> cint \<Rightarrow> fault + heap \<times> LinkedList" where
  "push_front h l v =
     (case new_Node h v of (n, h1) \<Rightarrow>
        (case set_next h1 (Some n) (head l) of
           Inl e \<Rightarrow> Inl e
         | Inr h2 \<Rightarrow>
             (let l1 = l\<lparr>head := Some n\<rparr>;
                  l2 = (if tail l1 = None then l1\<lparr>tail := Some n\<rparr> else l1)
              in Inr (h2, l2\<lparr>size := size l2 + 1\<rparr>))))"

definition push_back :: "heap \<Rightarrow> LinkedList \<Rightarrow> cint \<Rightarrow> fault + heap \<times> LinkedList" where
  "push_back h l v =
     (case new_Node h v of (n, h1) \<Rightarrow>
        (if tail l \<noteq> None
         then (case set_next h1 (tail l) (Some n) of
                 Inl e \<Rightarrow> Inl e
               | Inr h2 \<Rightarrow> Inr (h2, l\<lparr>tail := Some n, size := size l + 1\<rparr>))
         else Inr (h1, l\<lparr>head := Some n, tail := Some n, size := size l + 1\<rparr>)))"

text \<open>\<^verbatim>\<open>pop_front(int &out)\<close>: the second component of the result is the value
  assigned to \<^verbatim>\<open>out\<close>, \<open>None\<close> when \<^verbatim>\<open>out\<close> is left as it was.\<close>

definition pop_front :: "heap \<Rightarrow> LinkedList \<Rightarrow> fault + bool \<times> cint option \<times> heap \<times> LinkedList" where
  "pop_front h l =
     (if head l = None then Inr (False, None, h, l)
      else (case deref h (head l) of
              Inl e \<Rightarrow> Inl e
            | Inr n \<Rightarrow>
                (let l1 = l\<lparr>head := next n\<rparr>;
                     l2 = (if head l1 = None then l1\<lparr>tail := None\<rparr> else l1)
                 in case free h (head l) of
                      Inl e \<Rightarrow> Inl e
                    | Inr h1 \<Rightarrow> Inr (True, Some (value n), h1, l2\<lparr>size := size l2 - 1\<rparr>))))"

definition front :: "heap \<Rightarrow> LinkedList \<Rightarrow> fault + cint" where
  "front h l = (case deref h (head l) of Inl e \<Rightarrow> Inl e | Inr n \<Rightarrow> Inr (value n))"

definition "back" :: "heap \<Rightarrow> LinkedList \<Rightarrow> fault + cint" where
  "back h l = (case deref h (tail l) of Inl e \<Rightarrow> Inl e | Inr n \<Rightarrow> Inr (value n))"

text \<open>The traversal of \<^verbatim>\<open>insert\<close> and \<^verbatim>\<open>erase\<close>:
  \<^verbatim>\<open>for (std::size_t i = 0; i + 1 < index; ++i) prev = prev->next;\<close>\<close>

function seek :: "heap \<Rightarrow> nat \<Rightarrow> nat \<Rightarrow> addr option \<Rightarrow> fault + addr option" where
  "seek h index i prev =
     (if i + 1 < index
      then (case deref h prev of
              Inl e \<Rightarrow> Inl e
            | Inr n \<Rightarrow> seek h index (i + 1) (next n))
      else Inr prev)"
  by pat_completeness auto

termination
  by (relation "measure (\<lambda>(h, index, i, prev). index - i)") auto

declare seek.simps [simp del]

definition insert_at :: "heap \<Rightarrow> LinkedList \<Rightarrow> nat \<Rightarrow> cint \<Rightarrow> fault + bool \<times> heap \<times> LinkedList" where
  "insert_at h l index v =
     (if index > size l then Inr (False, h, l)
      else if index = 0
      then (case push_front h l v of Inl e \<Rightarrow> Inl e | Inr (h1, l1) \<Rightarrow> Inr (True, h1, l1))
      else if index = size l
      then (case push_back h l v of Inl e \<Rightarrow> Inl e | Inr (h1, l1) \<Rightarrow> Inr (True, h1, l1))
      else (case seek h index 0 (head l) of
              Inl e \<Rightarrow> Inl e
            | Inr prev \<Rightarrow>
                (case new_Node h v of (n, h1) \<Rightarrow>
                   (case deref h1 prev of
                      Inl e \<Rightarrow> Inl e
                    | Inr p \<Rightarrow>
                        (case set_next h1 (Some n) (next p) of
                           Inl e \<Rightarrow> Inl e
                         | Inr h2 \<Rightarrow>
                             (case set_next h2 prev (Some n) of
                                Inl e \<Rightarrow> Inl e
                              | Inr h3 \<Rightarrow> Inr (True, h3, l\<lparr>size := size l + 1\<rparr>)))))))"

definition erase :: "heap \<Rightarrow> LinkedList \<Rightarrow> nat \<Rightarrow> fault + bool \<times> heap \<times> LinkedList" where
  "erase h l index =
     (if index \<ge> size l then Inr (False, h, l)
      else if index = 0
      then (case pop_front h l of
              Inl e \<Rightarrow> Inl e
            | Inr (r, tmp, h1, l1) \<Rightarrow> Inr (r, h1, l1))
      else (case seek h index 0 (head l) of
              Inl e \<Rightarrow> Inl e
            | Inr prev \<Rightarrow>
                (case deref h prev of
                   Inl e \<Rightarrow> Inl e
                 | Inr p \<Rightarrow>
                     (let victim = next p
                      in case deref h victim of
                           Inl e \<Rightarrow> Inl e
                         | Inr vn \<Rightarrow>
                             (case set_next h prev (next vn) of
                                Inl e \<Rightarrow> Inl e
                              | Inr h1 \<Rightarrow>
                                  (let l1 = (if victim = tail l then l\<lparr>tail := prev\<rparr> else l)
                                   in case free h1 victim of
                                        Inl e \<Rightarrow> Inl e
                                      | Inr h2 \<Rightarrow> Inr (True, h2, l1\<lparr>size := size l1 - 1\<rparr>)))))))"

partial_function (option) toVector_loop ::
  "heap \<Rightarrow> addr option \<Rightarrow> cint list \<Rightarrow> (fault + cint list) option" where
  "toVector_loop h n out =
     (case n of
        None \<Rightarrow> Some (Inr out)
      | Some a \<Rightarrow>
          (case deref h n of
             Inl e \<Rightarrow> Some (Inl e)
           | Inr nd \<Rightarrow> toVector_loop h (next nd) (out @ [value nd])))"

definition toVector :: "heap \<Rightarrow> LinkedList \<Rightarrow> (fault + cint list) option" where
  "toVector h l = toVector_loop h (head l) []"

text \<open>\<^verbatim>\<open>copyFrom(other)\<close> reads \<^verbatim>\<open>other.head_\<close> once and then follows node
  pointers, pushing each value onto \<^verbatim>\<open>*this\<close>.\<close>

partial_function (option) copyFrom_loop ::
  "heap \<Rightarrow> LinkedList \<Rightarrow> addr option \<Rightarrow> (fault + heap \<times> LinkedList) option" where
  "copyFrom_loop h this n =
     (case n of
        None \<Rightarrow> Some (Inr (h, this))
      | Some a \<Rightarrow>
          (case deref h n of
             Inl e \<Rightarrow> Some (Inl e)
           | Inr nd \<Rightarrow>
               (case push_back h this (value nd) of
                  Inl e \<Rightarrow> Some (Inl e)
                | Inr (h1, this1) \<Rightarrow>
                    (case deref h1 n of
                       Inl e \<Rightarrow> Some (Inl e)
                     | Inr nd1 \<Rightarrow> copyFrom_loop h1 this1 (next nd1)))))"

definition copyFrom :: "heap \<Rightarrow> LinkedList \<Rightarrow> LinkedList \<Rightarrow> (fault + heap \<times> LinkedList) option" where
  "copyFrom h this other = copyFrom_loop h this (head other)"

text \<open>The copy constructor builds a new object: \<^verbatim>\<open>: LinkedList() { copyFrom(other); }\<close>\<close>

definition copy_ctor :: "heap \<Rightarrow> LinkedList \<Rightarrow> (fault + heap \<times> LinkedList) option" where
  "copy_ctor h other = copyFrom h LinkedList_ctor other"

text \<open>The move constructor: the pair (new object, \<^verbatim>\<open>other\<close> afterwards).\<close>

definition move_ctor :: "LinkedList \<Rightarrow> LinkedList \<times> LinkedList" where
  "move_ctor other =
     (\<lparr>head = head other, tail = tail other, size = size other\<rparr>,
      other\<lparr>head := None, tail := None, size := 0\<rparr>)"

text \<open>The assignment operators compare \<^verbatim>\<open>this\<close> with \<^verbatim>\<open>&other\<close>, so they are
  defined on the store of list objects.\<close>

definition copy_assign :: "state \<Rightarrow> lptr \<Rightarrow> lptr \<Rightarrow> (fault + state) option" where
  "copy_assign s this other =
     (if this \<noteq> other
      then (case clear (nodes s) (lists s this) of
              Inl e \<Rightarrow> Some (Inl e)
            | Inr (h1, t1) \<Rightarrow>
                (let ls1 = (lists s)(this := t1)
                 in case copyFrom h1 (ls1 this) (ls1 other) of
                      None \<Rightarrow> None
                    | Some (Inl e) \<Rightarrow> Some (Inl e)
                    | Some (Inr (h2, t2)) \<Rightarrow> Some (Inr \<lparr>nodes = h2, lists = ls1(this := t2)\<rparr>)))
      else Some (Inr s))"

definition move_assign :: "state \<Rightarrow> lptr \<Rightarrow> lptr \<Rightarrow> fault + state" where
  "move_assign s this other =
     (if this \<noteq> other
      then (case clear (nodes s) (lists s this) of
              Inl e \<Rightarrow> Inl e
            | Inr (h1, t1) \<Rightarrow>
                (let ls1 = (lists s)(this := t1);
                     ls2 = ls1(this := (ls1 this)\<lparr>head := head (ls1 other), tail := tail (ls1 other),
                                                  size := size (ls1 other)\<rparr>);
                     ls3 = ls2(other := (ls2 other)\<lparr>head := None, tail := None, size := 0\<rparr>)
                 in Inr \<lparr>nodes = h1, lists = ls3\<rparr>))
      else Inr s)"

section \<open>Programs over several lists\<close>

text \<open>
  A program is a sequence of calls of the public interface on list objects named by
  their pointers. A step returns the new state, the fault, or \<open>None\<close> when a loop of
  the call does not end; the values a call returns are dropped. \<open>LL_copy dst src\<close>
  stands for \<^verbatim>\<open>dst = ll_copy(&src)\<close> and \<open>LL_move_from dst src\<close> for
  \<^verbatim>\<open>dst = ll_move_from(&src)\<close>; \<open>Copy_ctor l other\<close> and \<open>Move_ctor l other\<close> construct
  the object \<open>l\<close> from \<open>other\<close>. \<open>c_writes\<close> and \<open>cpp_writes\<close> give the list objects a
  call may change.
\<close>

definition put_list :: "state \<Rightarrow> lptr \<Rightarrow> heap \<times> LinkedList \<Rightarrow> state" where
  "put_list s l r = \<lparr>nodes = fst r, lists = (lists s)(l := snd r)\<rparr>"

datatype c_op =
    LL_init lptr
  | LL_clear lptr
  | LL_empty lptr
  | LL_size lptr
  | LL_push_front lptr cint
  | LL_push_back lptr cint
  | LL_pop_front lptr "nat option"
  | LL_front lptr "nat option"
  | LL_back lptr "nat option"
  | LL_insert lptr nat cint
  | LL_erase lptr nat
  | LL_copy lptr lptr
  | LL_move_from lptr lptr
  | LL_move_assign_from lptr lptr

fun c_step :: "state \<Rightarrow> c_op \<Rightarrow> (fault + state) option" where
  "c_step s (LL_init l) = Some (Inr (s\<lparr>lists := (lists s)(l := ll_init)\<rparr>))"
| "c_step s (LL_clear l) =
     (case ll_clear (nodes s) (lists s l) of
        Inl e \<Rightarrow> Some (Inl e)
      | Inr r \<Rightarrow> Some (Inr (put_list s l r)))"
| "c_step s (LL_empty l) = (case ll_empty (lists s l) of r \<Rightarrow> Some (Inr s))"
| "c_step s (LL_size l) = (case ll_size (lists s l) of r \<Rightarrow> Some (Inr s))"
| "c_step s (LL_push_front l v) =
     (case ll_push_front (nodes s) (lists s l) v of
        Inl e \<Rightarrow> Some (Inl e)
      | Inr r \<Rightarrow> Some (Inr (put_list s l r)))"
| "c_step s (LL_push_back l v) =
     (case ll_push_back (nodes s) (lists s l) v of
        Inl e \<Rightarrow> Some (Inl e)
      | Inr r \<Rightarrow> Some (Inr (put_list s l r)))"
| "c_step s (LL_pop_front l out) =
     (case ll_pop_front (nodes s) (lists s l) out of
        Inl e \<Rightarrow> Some (Inl e)
      | Inr (ok, w, r) \<Rightarrow> Some (Inr (put_list s l r)))"
| "c_step s (LL_front l out) =
     (case ll_front (nodes s) (lists s l) out of
        Inl e \<Rightarrow> Some (Inl e)
      | Inr r \<Rightarrow> Some (Inr s))"
| "c_step s (LL_back l out) =
     (case ll_back (nodes s) (lists s l) out of
        Inl e \<Rightarrow> Some (Inl e)
      | Inr r \<Rightarrow> Some (Inr s))"
| "c_step s (LL_insert l i v) =
     (case ll_insert (nodes s) (lists s l) i v of
        Inl e \<Rightarrow> Some (Inl e)
      | Inr (ok, r) \<Rightarrow> Some (Inr (put_list s l r)))"
| "c_step s (LL_erase l i) =
     (case ll_erase (nodes s) (lists s l) i of
        Inl e \<Rightarrow> Some (Inl e)
      | Inr (ok, r) \<Rightarrow> Some (Inr (put_list s l r)))"
| "c_step s (LL_copy dst src) =
     (case ll_copy (nodes s) (lists s src) of
        None \<Rightarrow> None
      | Some (Inl e) \<Rightarrow> Some (Inl e)
      | Some (Inr r) \<Rightarrow> Some (Inr (put_list s dst r)))"
| "c_step s (LL_move_from dst src) =
     (case ll_move_from (lists s src) of
        (d, src') \<Rightarrow> Some (Inr (s\<lparr>lists := ((lists s)(src := src'))(dst := d)\<rparr>)))"
| "c_step s (LL_move_assign_from dst src) =
     (case ll_move_assign_from s dst src of
        Inl e \<Rightarrow> Some (Inl e)
      | Inr s' \<Rightarrow> Some (Inr s'))"

fun c_run :: "c_op list \<Rightarrow> state \<Rightarrow> (fault + state) option" where
  "c_run [] s = Some (Inr s)"
| "c_run (op # ops) s =
     (case c_step s op of
        None \<Rightarrow> None
      | Some (Inl e) \<Rightarrow> Some (Inl e)
      | Some (Inr s') \<Rightarrow> c_run ops s')"

fun c_writes :: "c_op \<Rightarrow> lptr set" where
  "c_writes (LL_init l) = {l}"
| "c_writes (LL_clear l) = {l}"
| "c_writes (LL_empty l) = {}"
| "c_writes (LL_size l) = {}"
| "c_writes (LL_push_front l v) = {l}"
| "c_writes (LL_push_back l v) = {l}"
| "c_writes (LL_pop_front l out) = {l}"
| "c_writes (LL_front l out) = {}"
| "c_writes (LL_back l out) = {}"
| "c_writes (LL_insert l i v) = {l}"
| "c_writes (LL_erase l i) = {l}"
| "c_writes (LL_copy dst src) = {dst}"
| "c_writes (LL_move_from dst src) = {dst, src}"
| "c_writes (LL_move_assign_from dst src) = {dst, src}"

definition size_of :: "LinkedList \<Rightarrow> nat" where
  "size_of l = size l"

definition dtor :: "heap \<Rightarrow> LinkedList \<Rightarrow> fault + heap \<times> LinkedList" where
  "dtor h l = clear h l"

datatype cpp_op =
    Ctor lptr
  | Copy_ctor lptr lptr
  | Move_ctor lptr lptr
  | Copy_assign lptr lptr
  | Move_assign lptr lptr
  | Dtor lptr
  | Empty lptr
  | Size lptr
  | Clear lptr
  | Push_front lptr cint
  | Push_back lptr cint
  | Pop_front lptr
  | Front lptr
  | Back lptr
  | Insert lptr nat cint
  | Erase lptr nat
  | ToVector lptr

fun cpp_step :: "state \<Rightarrow> cpp_op \<Rightarrow> (fault + state) option" where
  "cpp_step s (Ctor l) = Some (Inr (s\<lparr>lists := (lists s)(l := LinkedList_ctor)\<rparr>))"
| "cpp_step s (Copy_ctor l other) =
     (case copy_ctor (nodes s) (lists s other) of
        None \<Rightarrow> None
      | Some (Inl e) \<Rightarrow> Some (Inl e)
      | Some (Inr r) \<Rightarrow> Some (Inr (put_list s l r)))"
| "cpp_step s (Move_ctor l other) =
     (case move_ctor (lists s other) of
        (t, other') \<Rightarrow> Some (Inr (s\<lparr>lists := ((lists s)(l := t))(other := other')\<rparr>)))"
| "cpp_step s (Copy_assign l other) = copy_assign s l other"
| "cpp_step s (Move_assign l other) =
     (case move_assign s l other of Inl e \<Rightarrow> Some (Inl e) | Inr s' \<Rightarrow> Some (Inr s'))"
| "cpp_step s (Dtor l) =
     (case dtor (nodes s) (lists s l) of
        Inl e \<Rightarrow> Some (Inl e)
      | Inr r \<Rightarrow> Some (Inr (put_list s l r)))"
| "cpp_step s (Empty l) = (case empty (lists s l) of r \<Rightarrow> Some (Inr s))"
| "cpp_step s (Size l) = (case size_of (lists s l) of r \<Rightarrow> Some (Inr s))"
| "cpp_step s (Clear l) =
     (case clear (nodes s) (lists s l) of
        Inl e \<Rightarrow> Some (Inl e)
      | Inr r \<Rightarrow> Some (Inr (put_list s l r)))"
| "cpp_step s (Push_front l v) =
     (case push_front (nodes s) (lists s l) v of
        Inl e \<Rightarrow> Some (Inl e)
      | Inr r \<Rightarrow> Some (Inr (put_list s l r)))"
| "cpp_step s (Push_back l v) =
     (case push_back (nodes s) (lists s l) v of
        Inl e \<Rightarrow> Some (Inl e)
      | Inr r \<Rightarrow> Some (Inr (put_list s l r)))"
| "cpp_step s (Pop_front l) =
     (case pop_front (nodes s) (lists s l) of
        Inl e \<Rightarrow> Some (Inl e)
      | Inr (ok, out, r) \<Rightarrow> Some (Inr (put_list s l r)))"
| "cpp_step s (Front l) =
     (case front (nodes s) (lists s l) of
        Inl e \<Rightarrow> Some (Inl e)
      | Inr v \<Rightarrow> Some (Inr s))"
| "cpp_step s (Back l) =
     (case back (nodes s) (lists s l) of
        Inl e \<Rightarrow> Some (Inl e)
      | Inr v \<Rightarrow> Some (Inr s))"
| "cpp_step s (Insert l i v) =
     (case insert_at (nodes s) (lists s l) i v of
        Inl e \<Rightarrow> Some (Inl e)
      | Inr (ok, r) \<Rightarrow> Some (Inr (put_list s l r)))"
| "cpp_step s (Erase l i) =
     (case erase (nodes s) (lists s l) i of
        Inl e \<Rightarrow> Some (Inl e)
      | Inr (ok, r) \<Rightarrow> Some (Inr (put_list s l r)))"
| "cpp_step s (ToVector l) =
     (case toVector (nodes s) (lists s l) of
        None \<Rightarrow> None
      | Some (Inl e) \<Rightarrow> Some (Inl e)
      | Some (Inr vs) \<Rightarrow> Some (Inr s))"

fun cpp_run :: "cpp_op list \<Rightarrow> state \<Rightarrow> (fault + state) option" where
  "cpp_run [] s = Some (Inr s)"
| "cpp_run (op # ops) s =
     (case cpp_step s op of
        None \<Rightarrow> None
      | Some (Inl e) \<Rightarrow> Some (Inl e)
      | Some (Inr s') \<Rightarrow> cpp_run ops s')"

fun cpp_writes :: "cpp_op \<Rightarrow> lptr set" where
  "cpp_writes (Ctor l) = {l}"
| "cpp_writes (Copy_ctor l other) = {l}"
| "cpp_writes (Move_ctor l other) = {l, other}"
| "cpp_writes (Copy_assign l other) = {l}"
| "cpp_writes (Move_assign l other) = {l, other}"
| "cpp_writes (Dtor l) = {l}"
| "cpp_writes (Clear l) = {l}"
| "cpp_writes (Push_front l v) = {l}"
| "cpp_writes (Push_back l v) = {l}"
| "cpp_writes (Pop_front l) = {l}"
| "cpp_writes (Insert l i v) = {l}"
| "cpp_writes (Erase l i) = {l}"
| "cpp_writes _ = {}"

text \<open>\<^verbatim>\<open>front()\<close> and \<^verbatim>\<open>back()\<close> have the precondition that the list is not empty;
  \<open>cpp_calls_ok s ops\<close> says that every call of the run of \<open>ops\<close> from \<open>s\<close> is made
  within its precondition.\<close>

fun cpp_pre :: "state \<Rightarrow> cpp_op \<Rightarrow> bool" where
  "cpp_pre s (Front l) = (\<not> empty (lists s l))"
| "cpp_pre s (Back l) = (\<not> empty (lists s l))"
| "cpp_pre s _ = True"

fun cpp_calls_ok :: "state \<Rightarrow> cpp_op list \<Rightarrow> bool" where
  "cpp_calls_ok s [] = True"
| "cpp_calls_ok s (op # ops) =
     (cpp_pre s op \<and>
      (case cpp_step s op of
         Some (Inr s') \<Rightarrow> cpp_calls_ok s' ops
       | _ \<Rightarrow> True))"

section \<open>The harness entry points\<close>

text \<open>
  \<^verbatim>\<open>main\<close> of \<^verbatim>\<open>cpp-linkedlist/main/main.cpp\<close> and of
  \<^verbatim>\<open>c-linkedlist/main/main.c\<close>. \<open>argv\<close> is the argument vector (\<open>argc\<close> is its
  length); the result is the operation groups run, in order, and the exit status.
\<close>

datatype task = task1_basic_ops | task2_insert_erase | task3_copy_move

definition cpp_main :: "string list \<Rightarrow> task list \<times> int" where
  "cpp_main argv =
     (if length argv \<ge> 2
      then (let which = argv ! 1
            in if which = ''task1'' then ([task1_basic_ops], 0)
               else if which = ''task2'' then ([task2_insert_erase], 0)
               else if which = ''task3'' then ([task3_copy_move], 0)
               else ([], 2))
      else ([task1_basic_ops, task2_insert_erase, task3_copy_move], 0))"

definition c_main :: "string list \<Rightarrow> task list \<times> int" where
  "c_main argv =
     (let which = (if length argv \<ge> 2 then argv ! 1 else '''')
      in if which = ''task1'' then ([task1_basic_ops], 0)
         else if which = ''task2'' then ([task2_insert_erase], 0)
         else if which = ''task3'' then ([task3_copy_move], 0)
         else ([task1_basic_ops, task2_insert_erase, task3_copy_move], 0))"

section \<open>Lists as chains of cells\<close>

text \<open>
  \<open>path h p xs q\<close>: following \<^verbatim>\<open>next\<close> links in \<open>h\<close> from \<open>p\<close> visits exactly the
  cells \<open>xs\<close> (address and stored value, in order) and arrives at \<open>q\<close>. A list object
  is well formed, \<open>llist h l xs\<close>, when its head starts such a path to the null
  pointer, its size is the number of cells and its tail is the last cell.
\<close>

primrec path :: "heap \<Rightarrow> addr option \<Rightarrow> (addr \<times> cint) list \<Rightarrow> addr option \<Rightarrow> bool" where
  "path h p [] q = (p = q)"
| "path h p (x # xs) q =
     (p = Some (fst x) \<and>
      (case hget h (fst x) of
         None \<Rightarrow> False
       | Some n \<Rightarrow> value n = snd x \<and> path h (next n) xs q))"

definition owned :: "(addr \<times> cint) list \<Rightarrow> addr set" where
  "owned xs = fst ` set xs"

definition llist :: "heap \<Rightarrow> LinkedList \<Rightarrow> (addr \<times> cint) list \<Rightarrow> bool" where
  "llist h l xs \<longleftrightarrow>
     path h (head l) xs None \<and> size l = length xs \<and>
     tail l = (if xs = [] then None else Some (fst (last xs)))"

text \<open>A state is represented by \<open>R\<close> when every list object \<open>i\<close> is well formed with
  cells \<open>R i\<close> and no cell belongs to two lists.\<close>

definition repr :: "state \<Rightarrow> (lptr \<Rightarrow> (addr \<times> cint) list) \<Rightarrow> bool" where
  "repr s R \<longleftrightarrow>
     (\<forall>i. llist (nodes s) (lists s i) (R i)) \<and>
     (\<forall>i j. i \<noteq> j \<longrightarrow> owned (R i) \<inter> owned (R j) = {})"

text \<open>
  The structural invariant of a list object, as the specification words it: the size
  is the number of cells reachable from the head, the tail (if any) has no successor,
  and size zero, null head and null tail go together.
\<close>

definition structural_invariant :: "heap \<Rightarrow> LinkedList \<Rightarrow> bool" where
  "structural_invariant h l \<longleftrightarrow>
     (\<exists>xs. path h (head l) xs None \<and> size l = length xs) \<and>
     (\<forall>t. tail l = Some t \<longrightarrow> (\<exists>n. hget h t = Some n \<and> next n = None)) \<and>
     ((size l = 0) = (head l = None)) \<and> ((size l = 0) = (tail l = None))"

text \<open>A state in which every list object is freshly initialised.\<close>

definition start :: "heap \<Rightarrow> state" where
  "start h = \<lparr>nodes = h, lists = (\<lambda>l. ll_init)\<rparr>"

text \<open>An example state: list object 0 holds the single value 7, every other list is
  empty.\<close>

definition one_list :: state where
  "one_list = \<lparr>nodes = [Some \<lparr>value = 7, next = None\<rparr>],
               lists = (\<lambda>l. ll_init)(0 := \<lparr>head = Some 0, tail = Some 0, size = 1\<rparr>)\<rparr>"

section \<open>Lemmas\<close>

subsection \<open>The node store\<close>

lemma hget_hput: "hget (hput h a n) b = (if b = a then Some n else hget h b)"
  by (auto simp: hget_def hput_def nth_append nth_list_update)

lemma hget_free: "hget (h[a := None]) b = (if b = a then None else hget h b)"
  by (auto simp: hget_def nth_list_update)

lemma hget_malloc: "hget h (malloc h) = None"
proof -
  let ?k = "length (takeWhile (\<lambda>c. c \<noteq> None) h)"
  show ?thesis
  proof (cases "?k < length h")
    case True
    then have "\<not> (h ! ?k \<noteq> None)" by (rule nth_length_takeWhile)
    with True show ?thesis by (simp add: hget_def malloc_def)
  next
    case False
    then show ?thesis by (simp add: hget_def malloc_def)
  qed
qed

lemma deref_Some: "hget h a = Some n \<Longrightarrow> deref h (Some a) = Inr n"
  by (simp add: deref_def)

lemma set_next_Some: "hget h a = Some n \<Longrightarrow> set_next h (Some a) q = Inr (hput h a (n\<lparr>next := q\<rparr>))"
  by (simp add: set_next_def deref_def)

lemma free_Some: "hget h a = Some n \<Longrightarrow> free h (Some a) = Inr (h[a := None])"
  by (simp add: free_def)

subsection \<open>Chains\<close>

lemma owned_simps [simp]:
  "owned [] = {}" "owned (x # xs) = insert (fst x) (owned xs)" "owned (xs @ ys) = owned xs \<union> owned ys"
  by (auto simp: owned_def)

lemma path_append: "path h p (xs @ ys) q = (\<exists>r. path h p xs r \<and> path h r ys q)"
  by (induction xs arbitrary: p) (auto split: option.splits)

lemma path_cong_heap:
  "(\<And>a. a \<in> owned xs \<Longrightarrow> hget h' a = hget h a) \<Longrightarrow> path h' p xs q = path h p xs q"
  by (induction xs arbitrary: p) (auto split: option.splits)

lemma path_live: "path h p xs q \<Longrightarrow> a \<in> owned xs \<Longrightarrow> hget h a \<noteq> None"
  by (induction xs arbitrary: p) (auto split: option.splits)

lemma path_unique: "path h p xs None \<Longrightarrow> path h p ys None \<Longrightarrow> xs = ys"
proof (induction xs arbitrary: p ys)
  case Nil
  then show ?case by (cases ys) auto
next
  case (Cons x xs)
  then show ?case by (cases ys) (auto split: option.splits simp: prod_eq_iff)
qed

lemma chain_distinct: "path h p xs None \<Longrightarrow> distinct (map fst xs)"
proof (induction xs arbitrary: p)
  case Nil
  then show ?case by simp
next
  case (Cons x xs)
  from Cons.prems obtain n where n: "hget h (fst x) = Some n" "value n = snd x" "path h (next n) xs None"
    and p: "p = Some (fst x)"
    by (auto split: option.splits)
  have "fst x \<notin> fst ` set xs"
  proof
    assume "fst x \<in> fst ` set xs"
    then obtain y where y: "y \<in> set xs" "fst y = fst x" by auto
    then obtain us vs where uv: "xs = us @ y # vs" by (auto simp: in_set_conv_decomp)
    with n(3) obtain r where r: "path h (next n) us r" "path h r (y # vs) None"
      by (auto simp: path_append)
    from r(2) y(2) n(1) have "path h (next n) vs None" by (auto split: option.splits)
    with n(3) have "xs = vs" by (rule path_unique)
    with uv show False by simp
  qed
  with Cons.IH[OF n(3)] show ?case by simp
qed

lemma path_not_owned_upd:
  "a \<notin> owned xs \<Longrightarrow> path (hput h a n) p xs q = path h p xs q"
  by (rule path_cong_heap) (auto simp: hget_hput)

lemma path_not_owned_free:
  "a \<notin> owned xs \<Longrightarrow> path (h[a := None]) p xs q = path h p xs q"
  by (rule path_cong_heap) (auto simp: hget_free)

lemma malloc_not_owned: "path h p xs q \<Longrightarrow> malloc h \<notin> owned xs"
  using path_live[of h p xs q "malloc h"] by (auto simp: hget_malloc)

lemma path_snoc:
  "path h p (ys @ [x]) None \<longleftrightarrow>
     path h p ys (Some (fst x)) \<and> (\<exists>n. hget h (fst x) = Some n \<and> value n = snd x \<and> next n = None)"
  by (auto simp: path_append split: option.splits)

subsection \<open>The C functions on a well-formed list\<close>

lemma ll_push_front_spec:
  assumes "llist h l xs"
  shows "\<exists>a h' l'. ll_push_front h l v = Inr (h', l') \<and> llist h' l' ((a, v) # xs) \<and>
           hget h a = None \<and> (\<forall>b. b \<noteq> a \<longrightarrow> hget h' b = hget h b)"
proof -
  let ?a = "malloc h"
  from assms have p: "path h (head l) xs None" by (simp add: llist_def)
  then have na: "?a \<notin> owned xs" by (rule malloc_not_owned)
  show ?thesis
    using assms na
    by (auto simp: ll_push_front_def Let_def llist_def hget_hput hget_malloc path_not_owned_upd)
qed

lemma ll_push_back_spec:
  assumes "llist h l xs"
  shows "\<exists>a h' l'. ll_push_back h l v = Inr (h', l') \<and> llist h' l' (xs @ [(a, v)]) \<and>
           hget h a = None \<and> (\<forall>b. b \<noteq> a \<longrightarrow> b \<notin> owned xs \<longrightarrow> hget h' b = hget h b)"
proof (cases xs rule: rev_cases)
  case Nil
  with assms show ?thesis
    by (auto simp: ll_push_back_def Let_def llist_def hget_hput hget_malloc)
next
  case (snoc ys x)
  let ?a = "malloc h"
  let ?h1 = "hput h ?a \<lparr>value = v, next = None\<rparr>"
  from assms snoc have p: "path h (head l) (ys @ [x]) None" and t: "tail l = Some (fst x)"
    and sz: "size l = length xs"
    by (simp_all add: llist_def)
  from p have na: "?a \<notin> owned (ys @ [x])" by (rule malloc_not_owned)
  from p obtain n where pys: "path h (head l) ys (Some (fst x))"
    and n: "hget h (fst x) = Some n" "value n = snd x" "next n = None"
    by (auto simp: path_snoc)
  from chain_distinct[OF p] have nx: "fst x \<notin> owned ys" by (auto simp: owned_def)
  have n1: "hget ?h1 (fst x) = Some n" using na n by (auto simp: hget_hput)
  let ?h2 = "hput ?h1 (fst x) (n\<lparr>next := Some ?a\<rparr>)"
  have r: "ll_push_back h l v = Inr (?h2, l\<lparr>tail := Some ?a, size := size l + 1\<rparr>)"
    using t n1 by (simp add: ll_push_back_def Let_def set_next_Some)
  have "path ?h2 (head l) ys (Some (fst x))"
    using pys nx na by (simp add: path_not_owned_upd)
  moreover have "path ?h2 (Some (fst x)) [x, (?a, v)] None"
    using na n by (auto simp: hget_hput)
  ultimately have "path ?h2 (head l) (ys @ [x, (?a, v)]) None"
    by (auto simp: path_append)
  then have "llist ?h2 (l\<lparr>tail := Some ?a, size := size l + 1\<rparr>) (xs @ [(?a, v)])"
    using sz snoc by (simp add: llist_def)
  moreover have "\<forall>b. b \<noteq> ?a \<longrightarrow> b \<notin> owned xs \<longrightarrow> hget ?h2 b = hget h b"
    using snoc by (auto simp: hget_hput)
  ultimately show ?thesis using r hget_malloc[of h] by blast
qed

lemma free_nodes_spec:
  "path h p xs None \<Longrightarrow>
   \<exists>h'. free_nodes h p = Inr h' \<and> (\<forall>b. hget h' b = (if b \<in> owned xs then None else hget h b))"
proof (induction xs arbitrary: h p)
  case Nil
  then show ?case by (subst free_nodes.simps) simp
next
  case (Cons x xs)
  from Cons.prems obtain n where p: "p = Some (fst x)" and n: "hget h (fst x) = Some n"
    and rest: "path h (next n) xs None"
    by (auto split: option.splits)
  from chain_distinct[OF Cons.prems] have nx: "fst x \<notin> owned xs" by (auto simp: owned_def)
  let ?h1 = "h[fst x := None]"
  from rest nx have "path ?h1 (next n) xs None" by (simp add: path_not_owned_free)
  from Cons.IH[OF this] obtain h' where h': "free_nodes ?h1 (next n) = Inr h'"
    "\<forall>b. hget h' b = (if b \<in> owned xs then None else hget ?h1 b)" by blast
  have "free_nodes h p = Inr h'"
    by (subst free_nodes.simps) (simp add: p deref_Some[OF n] free_Some[OF n] h'(1))
  with h'(2) show ?case by (auto simp: hget_free)
qed

lemma ll_clear_spec:
  assumes "llist h l xs"
  shows "\<exists>h' l'. ll_clear h l = Inr (h', l') \<and> llist h' l' [] \<and>
           (\<forall>b. hget h' b = (if b \<in> owned xs then None else hget h b))"
proof -
  from assms have "path h (head l) xs None" by (simp add: llist_def)
  from free_nodes_spec[OF this] show ?thesis
    by (auto simp: ll_clear_def llist_def)
qed

lemma ll_pop_front_empty: "llist h l [] \<Longrightarrow> ll_pop_front h l out = Inr (0, None, h, l)"
  by (simp add: llist_def ll_pop_front_def)

lemma ll_pop_front_spec:
  assumes "llist h l (x # xs)"
  shows "\<exists>l'. ll_pop_front h l out =
              Inr (1, map_option (\<lambda>p. (p, snd x)) out, h[fst x := None], l') \<and>
           llist (h[fst x := None]) l' xs \<and> size l' = size l - 1"
proof -
  from assms obtain n where hd: "head l = Some (fst x)" and n: "hget h (fst x) = Some n"
    "value n = snd x" and rest: "path h (next n) xs None"
    by (auto simp: llist_def split: option.splits)
  from assms have p: "path h (head l) (x # xs) None" by (simp add: llist_def)
  from chain_distinct[OF p] have nx: "fst x \<notin> owned xs" by (auto simp: owned_def)
  from rest nx have r: "path (h[fst x := None]) (next n) xs None" by (simp add: path_not_owned_free)
  have e: "(next n = None) = (xs = [])" using rest by (cases xs) auto
  show ?thesis
    using assms r e n
    by (cases out) (auto simp: ll_pop_front_def hd deref_Some[OF n(1)] free_Some[OF n(1)] Let_def llist_def)
qed

lemma ll_seek_spec:
  "path h p xs q \<Longrightarrow> length xs = index - 1 - i \<Longrightarrow> ll_seek h index i p = Inr q"
proof (induction xs arbitrary: p i)
  case Nil
  then have "\<not> i < index - 1" and "p = q" by auto
  then show ?case by (subst ll_seek.simps) simp
next
  case (Cons x xs)
  from Cons.prems(1) obtain n where p: "p = Some (fst x)" and n: "hget h (fst x) = Some n"
    and rest: "path h (next n) xs q"
    by (auto split: option.splits)
  from Cons.prems(2) have i: "i < index - 1" and len: "length xs = index - 1 - (i + 1)" by auto
  from Cons.IH[OF rest len] have "ll_seek h index (i + 1) (next n) = Inr q" .
  then show ?case
    using i by (subst ll_seek.simps) (simp add: p deref_Some[OF n])
qed

lemma split_at_pred:
  assumes "0 < i" "i < length xs"
  obtains as pc bs where "xs = as @ pc # bs" "length as = i - 1" "take i xs = as @ [pc]"
    "drop i xs = bs" "bs \<noteq> []"
proof -
  let ?as = "take (i - 1) xs" and ?pc = "xs ! (i - 1)" and ?bs = "drop i xs"
  from assms have a: "xs = ?as @ ?pc # ?bs"
    using id_take_nth_drop[of "i - 1" xs] by simp
  moreover from assms have "length ?as = i - 1" by simp
  moreover from assms have "take i xs = ?as @ [?pc]"
    using take_Suc_conv_app_nth[of "i - 1" xs] by simp
  moreover from assms have "?bs \<noteq> []" by simp
  ultimately show ?thesis using that by blast
qed

lemma ll_insert_out_of_range:
  "llist h l xs \<Longrightarrow> length xs < i \<Longrightarrow> ll_insert h l i v = Inr (0, h, l)"
  by (simp add: ll_insert_def llist_def)

lemma ll_insert_spec:
  assumes l: "llist h l xs" and i: "i \<le> length xs"
  shows "\<exists>a h' l'. ll_insert h l i v = Inr (1, h', l') \<and>
           llist h' l' (take i xs @ (a, v) # drop i xs) \<and>
           hget h a = None \<and> (\<forall>b. b \<noteq> a \<longrightarrow> b \<notin> owned xs \<longrightarrow> hget h' b = hget h b)"
proof -
  from l have sz: "size l = length xs" by (simp add: llist_def)
  consider "i = 0" | "i \<noteq> 0" "i = length xs" | "0 < i" "i < length xs"
    using i by linarith
  then show ?thesis
  proof cases
    case 1
    from ll_push_front_spec[OF l, of v] obtain a h' l' where
      "ll_push_front h l v = Inr (h', l')" "llist h' l' ((a, v) # xs)"
      "hget h a = None" "\<forall>b. b \<noteq> a \<longrightarrow> hget h' b = hget h b" by blast
    with 1 show ?thesis by (auto simp: ll_insert_def)
  next
    case 2
    from ll_push_back_spec[OF l, of v] obtain a h' l' where
      "ll_push_back h l v = Inr (h', l')" "llist h' l' (xs @ [(a, v)])"
      "hget h a = None" "\<forall>b. b \<noteq> a \<longrightarrow> b \<notin> owned xs \<longrightarrow> hget h' b = hget h b" by blast
    with 2 sz show ?thesis by (auto simp: ll_insert_def)
  next
    case 3
    then obtain as pc bs where xs: "xs = as @ pc # bs" and las: "length as = i - 1"
      and tk: "take i xs = as @ [pc]" and dr: "drop i xs = bs" and bs: "bs \<noteq> []"
      by (rule split_at_pred)
    from l xs have p: "path h (head l) (as @ pc # bs) None" by (simp add: llist_def)
    then obtain pn where pas: "path h (head l) as (Some (fst pc))"
      and pn: "hget h (fst pc) = Some pn" "value pn = snd pc"
      and pbs: "path h (next pn) bs None"
      by (auto simp: path_append split: option.splits)
    from chain_distinct[OF p] have d: "fst pc \<notin> owned as" "fst pc \<notin> owned bs"
      by (auto simp: owned_def)
    let ?a = "malloc h"
    from malloc_not_owned[OF p] have na: "?a \<notin> owned as" "?a \<noteq> fst pc" "?a \<notin> owned bs"
      by auto
    let ?h1 = "hput h ?a \<lparr>value = v, next = None\<rparr>"
    let ?h2 = "hput ?h1 ?a \<lparr>value = v, next = next pn\<rparr>"
    let ?h3 = "hput ?h2 (fst pc) (pn\<lparr>next := Some ?a\<rparr>)"
    have sk: "ll_seek h i 0 (head l) = Inr (Some (fst pc))"
      using pas las by (intro ll_seek_spec) simp_all
    have d1: "deref ?h1 (Some (fst pc)) = Inr pn"
      using pn na by (simp add: deref_def hget_hput)
    have s1: "set_next ?h1 (Some ?a) (next pn) = Inr ?h2"
      by (simp add: set_next_def deref_def hget_hput)
    have s2: "set_next ?h2 (Some (fst pc)) (Some ?a) = Inr ?h3"
      using pn na by (simp add: set_next_def deref_def hget_hput)
    have r: "ll_insert h l i v = Inr (1, ?h3, l\<lparr>size := size l + 1\<rparr>)"
      using 3 sz by (simp add: ll_insert_def sk Let_def d1 s1 s2)
    have "path ?h3 (head l) as (Some (fst pc))"
      using pas d na by (simp add: path_not_owned_upd)
    moreover have "path ?h3 (Some (fst pc)) [pc, (?a, v)] (next pn)"
      using pn na by (simp add: hget_hput)
    moreover have "path ?h3 (next pn) bs None"
      using pbs d na by (simp add: path_not_owned_upd)
    ultimately have "path ?h3 (head l) ((as @ [pc]) @ (?a, v) # bs) None"
      unfolding path_append by (auto split: option.splits)
    moreover have "last ((as @ [pc]) @ (?a, v) # bs) = last xs" using bs xs by simp
    ultimately have "llist ?h3 (l\<lparr>size := size l + 1\<rparr>) (take i xs @ (?a, v) # drop i xs)"
      using l xs unfolding tk dr by (simp add: llist_def)
    moreover have "\<forall>b. b \<noteq> ?a \<longrightarrow> b \<notin> owned xs \<longrightarrow> hget ?h3 b = hget h b"
      using xs by (auto simp: hget_hput)
    ultimately show ?thesis using r hget_malloc[of h] by blast
  qed
qed

lemma ll_erase_out_of_range:
  "llist h l xs \<Longrightarrow> length xs \<le> i \<Longrightarrow> ll_erase h l i = Inr (0, h, l)"
  by (simp add: ll_erase_def llist_def)

lemma ll_erase_spec:
  assumes l: "llist h l xs" and i: "i < length xs"
  shows "\<exists>h' l'. ll_erase h l i = Inr (1, h', l') \<and>
           llist h' l' (take i xs @ drop (Suc i) xs) \<and>
           (\<forall>b. b \<notin> owned xs \<longrightarrow> hget h' b = hget h b)"
proof (cases "i = 0")
  case True
  from i obtain x ys where xs: "xs = x # ys" by (cases xs) auto
  from ll_pop_front_spec[OF l[unfolded xs], of "Some ()"] obtain l' where
    "ll_pop_front h l (Some ()) = Inr (1, Some ((), snd x), h[fst x := None], l')"
    "llist (h[fst x := None]) l' ys" by auto
  with True l xs show ?thesis
    by (auto simp: ll_erase_def llist_def hget_free)
next
  case False
  from l have sz: "size l = length xs" by (simp add: llist_def)
  from False i obtain as pc bs where xs0: "xs = as @ pc # bs" and las: "length as = i - 1"
    and tk: "take i xs = as @ [pc]" and dr: "drop i xs = bs" and bs: "bs \<noteq> []"
    by (auto intro: split_at_pred)
  from bs obtain vc cs where bsv: "bs = vc # cs" by (cases bs) auto
  have dr': "drop (Suc i) xs = cs"
    using dr bsv by (metis drop_Suc tl_drop list.sel(3))
  from l xs0 bsv have p: "path h (head l) (as @ pc # vc # cs) None" by (simp add: llist_def)
  then obtain pn vn where pas: "path h (head l) as (Some (fst pc))"
    and pn: "hget h (fst pc) = Some pn" "value pn = snd pc" "next pn = Some (fst vc)"
    and vn: "hget h (fst vc) = Some vn"
    and pcs: "path h (next vn) cs None"
    by (auto simp: path_append split: option.splits)
  from chain_distinct[OF p] have d: "fst pc \<notin> owned as" "fst pc \<notin> owned cs" "fst pc \<noteq> fst vc"
    "fst vc \<notin> owned as" "fst vc \<notin> owned cs"
    by (auto simp: owned_def)
  let ?h1 = "hput h (fst pc) (pn\<lparr>next := next vn\<rparr>)"
  let ?h2 = "?h1[fst vc := None]"
  let ?l1 = "if cs = [] then l\<lparr>tail := Some (fst pc)\<rparr> else l"
  have sk: "ll_seek h i 0 (head l) = Inr (Some (fst pc))"
    using pas las by (intro ll_seek_spec) simp_all
  have tl: "(Some (fst vc) = tail l) = (cs = [])"
    using l xs0 bsv d by (auto simp: llist_def owned_def)
  have f: "free ?h1 (Some (fst vc)) = Inr ?h2"
    using vn d by (simp add: free_def hget_hput)
  have r: "ll_erase h l i = Inr (1, ?h2, ?l1\<lparr>size := size ?l1 - 1\<rparr>)"
    using False i sz
    by (simp add: ll_erase_def sk deref_Some[OF pn(1)] pn(3) deref_Some[OF vn]
        set_next_Some[OF pn(1)] Let_def tl f)
  have "path ?h2 (head l) as (Some (fst pc))"
    using pas d by (simp add: path_not_owned_upd path_not_owned_free)
  moreover have "path ?h2 (Some (fst pc)) [pc] (next vn)"
    using pn d by (simp add: hget_hput hget_free)
  moreover have "path ?h2 (next vn) cs None"
    using pcs d by (simp add: path_not_owned_upd path_not_owned_free)
  ultimately have "path ?h2 (head l) ((as @ [pc]) @ cs) None"
    unfolding path_append by (auto split: option.splits)
  then have "llist ?h2 (?l1\<lparr>size := size ?l1 - 1\<rparr>) (take i xs @ drop (Suc i) xs)"
    using l xs0 bsv unfolding tk dr' by (auto simp: llist_def)
  moreover have "\<forall>b. b \<notin> owned xs \<longrightarrow> hget ?h2 b = hget h b"
    using xs0 bsv by (auto simp: hget_hput hget_free)
  ultimately show ?thesis using r by blast
qed

subsection \<open>The C++ members, by the C functions\<close>

lemma hput_hput: "hput (hput h a x) a y = hput h a y"
  by (auto simp: hput_def list_update_append)

lemma push_front_eq: "push_front h l v = ll_push_front h l v"
  by (simp add: push_front_def ll_push_front_def new_Node_def Let_def set_next_def deref_def
      hget_hput hput_hput)

lemma push_back_eq: "push_back h l v = ll_push_back h l v"
  by (simp add: push_back_def ll_push_back_def new_Node_def Let_def)

lemma clear_eq: "clear h l = ll_clear h l"
  by (simp add: clear_def ll_clear_def)

lemma seek_eq: "seek h index i p = ll_seek h index i p"
proof (induction h index i p rule: ll_seek.induct)
  case (1 h index i prev)
  have c: "(i + 1 < index) = (i < index - 1)" by auto
  show ?case
  proof (cases "i < index - 1")
    case True
    with 1 c show ?thesis
      by (subst seek.simps, subst ll_seek.simps) (auto split: sum.splits)
  next
    case False
    with c show ?thesis
      by (subst seek.simps, subst ll_seek.simps) simp
  qed
qed

lemma pop_front_eq:
  "pop_front h l =
     (case ll_pop_front h l (Some ()) of
        Inl e \<Rightarrow> Inl e
      | Inr (r, w, h1, l1) \<Rightarrow> Inr (r = 1, map_option snd w, h1, l1))"
  by (simp add: pop_front_def ll_pop_front_def Let_def split: sum.splits)

lemma insert_at_eq:
  "insert_at h l i v =
     (case ll_insert h l i v of Inl e \<Rightarrow> Inl e | Inr (r, h1, l1) \<Rightarrow> Inr (r = 1, h1, l1))"
  by (simp add: insert_at_def ll_insert_def push_front_eq push_back_eq seek_eq new_Node_def Let_def
      split: sum.splits prod.splits)

lemma erase_eq:
  "erase h l i =
     (case ll_erase h l i of Inl e \<Rightarrow> Inl e | Inr (r, h1, l1) \<Rightarrow> Inr (r = 1, h1, l1))"
  by (simp add: erase_def ll_erase_def pop_front_eq seek_eq Let_def
      split: sum.splits prod.splits)

subsection \<open>Traversals and copies\<close>

lemma print_list_loop_spec:
  "path h p xs None \<Longrightarrow> print_list_loop h p printed = Some (Inr (printed @ map snd xs))"
proof (induction xs arbitrary: p printed)
  case Nil
  then show ?case by (subst print_list_loop.simps) simp
next
  case (Cons x xs)
  from Cons.prems obtain n where p: "p = Some (fst x)" and n: "hget h (fst x) = Some n"
    "value n = snd x" and rest: "path h (next n) xs None"
    by (auto split: option.splits)
  from Cons.IH[OF rest] show ?case
    by (subst print_list_loop.simps) (simp add: p deref_Some[OF n(1)] n(2))
qed

lemma toVector_loop_spec:
  "path h p xs None \<Longrightarrow> toVector_loop h p out = Some (Inr (out @ map snd xs))"
proof (induction xs arbitrary: p out)
  case Nil
  then show ?case by (subst toVector_loop.simps) simp
next
  case (Cons x xs)
  from Cons.prems obtain n where p: "p = Some (fst x)" and n: "hget h (fst x) = Some n"
    "value n = snd x" and rest: "path h (next n) xs None"
    by (auto split: option.splits)
  from Cons.IH[OF rest] show ?case
    by (subst toVector_loop.simps) (simp add: p deref_Some[OF n(1)] n(2))
qed

lemma llist_live: "llist h l xs \<Longrightarrow> a \<in> owned xs \<Longrightarrow> hget h a \<noteq> None"
  unfolding llist_def using path_live by blast

lemma ll_copy_loop_spec:
  "path h n xs None \<Longrightarrow> llist h dst ys \<Longrightarrow> owned xs \<inter> owned ys = {} \<Longrightarrow>
   \<exists>h' dst' zs. ll_copy_loop h dst n = Some (Inr (h', dst')) \<and> llist h' dst' (ys @ zs) \<and>
      map snd zs = map snd xs \<and> (\<forall>b \<in> owned zs. hget h b = None) \<and>
      (\<forall>b. b \<notin> owned ys \<longrightarrow> hget h b \<noteq> None \<longrightarrow> hget h' b = hget h b)"
proof (induction xs arbitrary: h dst n ys)
  case Nil
  then have "ll_copy_loop h dst n = Some (Inr (h, dst))"
    by (subst ll_copy_loop.simps) simp
  with Nil show ?case by (intro exI[of _ h] exI[of _ dst] exI[of _ "[]"]) simp
next
  case (Cons x xs)
  from Cons.prems(1) obtain nd where n: "n = Some (fst x)" and nd: "hget h (fst x) = Some nd"
    "value nd = snd x" and rest: "path h (next nd) xs None"
    by (auto split: option.splits)
  from ll_push_back_spec[OF Cons.prems(2), of "snd x"] obtain c h1 dst1 where
    pb: "ll_push_back h dst (snd x) = Inr (h1, dst1)" and l1: "llist h1 dst1 (ys @ [(c, snd x)])"
    and c: "hget h c = None" and fr: "\<forall>b. b \<noteq> c \<longrightarrow> b \<notin> owned ys \<longrightarrow> hget h1 b = hget h b"
    by blast
  have keep: "hget h1 b = hget h b" if "b \<in> owned (x # xs)" for b
  proof -
    from that Cons.prems(1) have "hget h b \<noteq> None" by (rule path_live[rotated])
    with c have "b \<noteq> c" by auto
    moreover from that Cons.prems(3) have "b \<notin> owned ys" by auto
    ultimately show ?thesis using fr by simp
  qed
  have nd1: "hget h1 (fst x) = Some nd" using keep[of "fst x"] nd by simp
  have rest1: "path h1 (next nd) xs None"
    using rest keep by (subst path_cong_heap[of xs h1 h]) auto
  have disj: "owned xs \<inter> owned (ys @ [(c, snd x)]) = {}"
  proof -
    have "c \<notin> owned xs" using path_live[OF rest, of c] c by auto
    with Cons.prems(3) show ?thesis by auto
  qed
  from Cons.IH[OF rest1 l1 disj] obtain h' dst' zs where
    r: "ll_copy_loop h1 dst1 (next nd) = Some (Inr (h', dst'))"
    and l': "llist h' dst' ((ys @ [(c, snd x)]) @ zs)" and vs: "map snd zs = map snd xs"
    and new: "\<forall>b \<in> owned zs. hget h1 b = None"
    and fr': "\<forall>b. b \<notin> owned (ys @ [(c, snd x)]) \<longrightarrow> hget h1 b \<noteq> None \<longrightarrow> hget h' b = hget h1 b"
    by blast
  have res: "ll_copy_loop h dst n = Some (Inr (h', dst'))"
    by (subst ll_copy_loop.simps) (simp add: n deref_Some[OF nd(1)] nd(2) pb deref_Some[OF nd1] r)
  have new': "\<forall>b \<in> owned ((c, snd x) # zs). hget h b = None"
  proof
    fix b assume b: "b \<in> owned ((c, snd x) # zs)"
    show "hget h b = None"
    proof (cases "b = c")
      case True
      with c show ?thesis by simp
    next
      case False
      with b have bz: "b \<in> owned zs" by simp
      with new have n1: "hget h1 b = None" by blast
      have "b \<notin> owned ys" using llist_live[OF l1, of b] n1 by auto
      with False fr n1 show ?thesis by simp
    qed
  qed
  have fr'': "\<forall>b. b \<notin> owned ys \<longrightarrow> hget h b \<noteq> None \<longrightarrow> hget h' b = hget h b"
  proof (intro allI impI)
    fix b assume b: "b \<notin> owned ys" "hget h b \<noteq> None"
    with c have bc: "b \<noteq> c" by auto
    with b fr have e: "hget h1 b = hget h b" by simp
    with b bc fr' show "hget h' b = hget h b" by simp
  qed
  show ?case
    using res l' vs new' fr'' nd(2)
    by (intro exI[of _ h'] exI[of _ dst'] exI[of _ "(c, snd x) # zs"]) simp
qed

subsection \<open>States of several lists\<close>

lemma llist_cong_heap:
  "(\<And>a. a \<in> owned xs \<Longrightarrow> hget h' a = hget h a) \<Longrightarrow> llist h' l xs = llist h l xs"
proof -
  assume "\<And>a. a \<in> owned xs \<Longrightarrow> hget h' a = hget h a"
  then have "path h' (head l) xs None = path h (head l) xs None" by (rule path_cong_heap)
  then show ?thesis by (simp only: llist_def)
qed

lemma repr_update:
  assumes r: "repr s R"
    and l': "llist h' l' xs'"
    and f1: "\<And>b. b \<notin> owned (R i) \<Longrightarrow> hget (nodes s) b \<noteq> None \<Longrightarrow> hget h' b = hget (nodes s) b"
    and f2: "\<And>b. b \<in> owned xs' \<Longrightarrow> b \<in> owned (R i) \<or> hget (nodes s) b = None"
  shows "repr (put_list s i (h', l')) (R(i := xs'))"
proof -
  have other: "llist h' (lists s j) (R j) \<and> owned xs' \<inter> owned (R j) = {}" if "j \<noteq> i" for j
  proof -
    from r have lj: "llist (nodes s) (lists s j) (R j)" by (simp add: repr_def)
    from r that have dj: "owned (R i) \<inter> owned (R j) = {}" by (auto simp: repr_def)
    have same: "hget h' a = hget (nodes s) a" if "a \<in> owned (R j)" for a
      using that llist_live[OF lj that] dj by (intro f1) auto
    then have "llist h' (lists s j) (R j) = llist (nodes s) (lists s j) (R j)"
      by (rule llist_cong_heap)
    with lj have "llist h' (lists s j) (R j)" by simp
    moreover have "owned xs' \<inter> owned (R j) = {}"
      using f2 dj llist_live[OF lj] by blast
    ultimately show ?thesis ..
  qed
  show ?thesis
    unfolding repr_def put_list_def
  proof (intro conjI allI impI)
    fix j show "llist (nodes \<lparr>nodes = fst (h', l'), lists = (lists s)(i := snd (h', l'))\<rparr>)
          (lists \<lparr>nodes = fst (h', l'), lists = (lists s)(i := snd (h', l'))\<rparr> j) ((R(i := xs')) j)"
      using l' other[of j] by (cases "j = i") simp_all
  next
    fix j k :: lptr assume "j \<noteq> k"
    then show "owned ((R(i := xs')) j) \<inter> owned ((R(i := xs')) k) = {}"
      using other[of j] other[of k] r by (auto simp: repr_def)
  qed
qed

lemma llist_init: "llist h ll_init []"
  by (simp add: llist_def ll_init_def)

lemma repr_shuffle:
  assumes r: "repr s R"
  shows "repr (s\<lparr>lists := ((lists s)(src := ll_init))(dst := lists s src)\<rparr>)
           ((R(src := []))(dst := R src))"
proof -
  let ?ls = "((lists s)(src := ll_init))(dst := lists s src)"
  let ?R = "(R(src := []))(dst := R src)"
  from r have a: "\<And>i. llist (nodes s) (lists s i) (R i)"
    and d: "\<And>i j. i \<noteq> j \<Longrightarrow> owned (R i) \<inter> owned (R j) = {}"
    by (auto simp: repr_def)
  have 1: "llist (nodes s) (?ls i) (?R i)" for i
    using a[of i] a[of src] llist_init[of "nodes s"] by simp
  have 2: "owned (?R i) \<inter> owned (?R j) = {}" if "i \<noteq> j" for i j
    using that d[of i j] d[of src j] d[of i src] by (auto split: if_splits)
  show ?thesis
    unfolding repr_def using 1 2 by simp
qed

lemma repr_init:
  assumes r: "repr s R"
  shows "repr (s\<lparr>lists := (lists s)(l := ll_init)\<rparr>) (R(l := []))"
proof -
  from r have a: "\<And>i. llist (nodes s) (lists s i) (R i)"
    and d: "\<And>i j. i \<noteq> j \<Longrightarrow> owned (R i) \<inter> owned (R j) = {}"
    by (auto simp: repr_def)
  have 1: "llist (nodes s) (((lists s)(l := ll_init)) i) ((R(l := [])) i)" for i
    using a[of i] llist_init[of "nodes s"] by simp
  have 2: "owned ((R(l := [])) i) \<inter> owned ((R(l := [])) j) = {}" if "i \<noteq> j" for i j
    using that d[of i j] by simp
  show ?thesis
    unfolding repr_def using 1 2 by simp
qed

lemma repr_shuffle2:
  assumes r: "repr s R"
  shows "repr (s\<lparr>lists := ((lists s)(dst := lists s src))(src := ll_init)\<rparr>)
           ((R(dst := R src))(src := []))"
proof -
  let ?ls = "((lists s)(dst := lists s src))(src := ll_init)"
  let ?R = "(R(dst := R src))(src := [])"
  from r have a: "\<And>i. llist (nodes s) (lists s i) (R i)"
    and d: "\<And>i j. i \<noteq> j \<Longrightarrow> owned (R i) \<inter> owned (R j) = {}"
    by (auto simp: repr_def)
  have 1: "llist (nodes s) (?ls i) (?R i)" for i
    using a[of i] a[of src] llist_init[of "nodes s"] by simp
  have 2: "owned (?R i) \<inter> owned (?R j) = {}" if "i \<noteq> j" for i j
    using that d[of i j] d[of src j] d[of i src] by (auto split: if_splits)
  show ?thesis
    unfolding repr_def using 1 2 by simp
qed

lemma repr_put:
  assumes "repr s R" and "llist h' l' xs'"
    and "\<And>b. b \<notin> owned (R i) \<Longrightarrow> hget (nodes s) b \<noteq> None \<Longrightarrow> hget h' b = hget (nodes s) b"
    and "\<And>b. b \<in> owned xs' \<Longrightarrow> b \<in> owned (R i) \<or> hget (nodes s) b = None"
  shows "\<exists>R'. repr (put_list s i (h', l')) R' \<and> (\<forall>j. j \<noteq> i \<longrightarrow> R' j = R j)"
  using repr_update[OF assms] by (intro exI[of _ "R(i := xs')"]) simp

lemma repr_same:
  assumes "repr s R"
  shows "\<exists>R'. repr (put_list s i (nodes s, lists s i)) R' \<and> (\<forall>j. j \<noteq> i \<longrightarrow> R' j = R j)"
proof -
  have "put_list s i (nodes s, lists s i) = s" by (simp add: put_list_def)
  with assms show ?thesis by auto
qed

lemma ll_front_total: "llist h l xs \<Longrightarrow> \<exists>r. ll_front h l out = Inr r"
  by (cases xs; cases out) (auto simp: ll_front_def llist_def deref_def split: option.splits)

lemma llist_tail_live:
  assumes "llist h l xs" "tail l = Some t"
  shows "\<exists>n. hget h t = Some n \<and> next n = None \<and> value n = snd (last xs)"
proof -
  from assms have ne: "xs \<noteq> []" and t: "t = fst (last xs)"
    by (auto simp: llist_def split: if_splits)
  then obtain ys x where xs: "xs = ys @ [x]" by (cases xs rule: rev_cases) auto
  with assms t show ?thesis by (auto simp: llist_def path_snoc)
qed

lemma ll_back_total: "llist h l xs \<Longrightarrow> \<exists>r. ll_back h l out = Inr r"
proof (cases "tail l")
  case None
  then show ?thesis by (simp add: ll_back_def)
next
  case (Some t)
  assume "llist h l xs"
  from llist_tail_live[OF this Some] obtain n where "hget h t = Some n" by blast
  with Some show ?thesis by (cases out) (simp_all add: ll_back_def deref_def)
qed

lemma ll_copy_spec:
  assumes "llist h src xs"
  shows "\<exists>h' dst zs. ll_copy h src = Some (Inr (h', dst)) \<and> llist h' dst zs \<and>
      map snd zs = map snd xs \<and> (\<forall>b \<in> owned zs. hget h b = None) \<and>
      (\<forall>b. hget h b \<noteq> None \<longrightarrow> hget h' b = hget h b)"
proof -
  from assms have p: "path h (head src) xs None" by (simp add: llist_def)
  from ll_copy_loop_spec[OF p llist_init, of] show ?thesis
    unfolding ll_copy_def by simp
qed

subsection \<open>Steps and runs\<close>

lemma c_step_repr:
  assumes r: "repr s R"
  shows "\<exists>s' R'. c_step s op = Some (Inr s') \<and> repr s' R' \<and> (\<forall>j. j \<notin> c_writes op \<longrightarrow> R' j = R j)"
proof -
  have ll: "\<And>i. llist (nodes s) (lists s i) (R i)" using r by (simp add: repr_def)
  show ?thesis
  proof (cases op)
    case (LL_init l)
    with repr_init[OF r, of l] show ?thesis by (intro exI[of _ "R(l := [])"] exI) simp
  next
    case (LL_clear l)
    from ll_clear_spec[OF ll[of l]] obtain h' l' where
      c: "ll_clear (nodes s) (lists s l) = Inr (h', l')" and l': "llist h' l' []"
      and f: "\<forall>b. hget h' b = (if b \<in> owned (R l) then None else hget (nodes s) b)" by blast
    have "\<exists>R'. repr (put_list s l (h', l')) R' \<and> (\<forall>j. j \<noteq> l \<longrightarrow> R' j = R j)"
      by (rule repr_put[OF r l']) (use f in \<open>auto\<close>)
    then obtain R' where
      "repr (put_list s l (h', l')) R'" "\<forall>j. j \<noteq> l \<longrightarrow> R' j = R j" by blast
    with LL_clear c show ?thesis by auto
  next
    case (LL_empty l)
    with r show ?thesis by auto
  next
    case (LL_size l)
    with r show ?thesis by auto
  next
    case (LL_push_front l v)
    from ll_push_front_spec[OF ll[of l], of v] obtain a h' l' where
      c: "ll_push_front (nodes s) (lists s l) v = Inr (h', l')" and l': "llist h' l' ((a, v) # R l)"
      and f0: "hget (nodes s) a = None" "\<forall>b. b \<noteq> a \<longrightarrow> hget h' b = hget (nodes s) b" by blast
    have f: "hget (nodes s) a = None"
      "\<forall>b. hget (nodes s) b \<noteq> None \<longrightarrow> hget h' b = hget (nodes s) b"
      using f0 by metis+
    have "\<exists>R'. repr (put_list s l (h', l')) R' \<and> (\<forall>j. j \<noteq> l \<longrightarrow> R' j = R j)"
      by (rule repr_put[OF r l']) (use f in \<open>auto\<close>)
    then obtain R' where
      "repr (put_list s l (h', l')) R'" "\<forall>j. j \<noteq> l \<longrightarrow> R' j = R j" by blast
    with LL_push_front c show ?thesis by auto
  next
    case (LL_push_back l v)
    from ll_push_back_spec[OF ll[of l], of v] obtain a h' l' where
      c: "ll_push_back (nodes s) (lists s l) v = Inr (h', l')" and l': "llist h' l' (R l @ [(a, v)])"
      and f0: "hget (nodes s) a = None"
        "\<forall>b. b \<noteq> a \<longrightarrow> b \<notin> owned (R l) \<longrightarrow> hget h' b = hget (nodes s) b" by blast
    have f: "hget (nodes s) a = None"
      "\<forall>b. b \<notin> owned (R l) \<longrightarrow> hget (nodes s) b \<noteq> None \<longrightarrow> hget h' b = hget (nodes s) b"
      using f0 by metis+
    have "\<exists>R'. repr (put_list s l (h', l')) R' \<and> (\<forall>j. j \<noteq> l \<longrightarrow> R' j = R j)"
      by (rule repr_put[OF r l']) (use f in \<open>auto\<close>)
    then obtain R' where
      "repr (put_list s l (h', l')) R'" "\<forall>j. j \<noteq> l \<longrightarrow> R' j = R j" by blast
    with LL_push_back c show ?thesis by auto
  next
    case (LL_pop_front l out)
    show ?thesis
    proof (cases "R l")
      case Nil
      with ll[of l] have "ll_pop_front (nodes s) (lists s l) out = Inr (0, None, nodes s, lists s l)"
        by (simp add: ll_pop_front_empty)
      with LL_pop_front repr_same[OF r, of l] show ?thesis by auto
    next
      case (Cons x xs)
      with ll[of l] have lx: "llist (nodes s) (lists s l) (x # xs)" by simp
      from ll_pop_front_spec[OF lx, of out] obtain l' where
        c: "ll_pop_front (nodes s) (lists s l) out =
              Inr (1, map_option (\<lambda>p. (p, snd x)) out, (nodes s)[fst x := None], l')"
        and l': "llist ((nodes s)[fst x := None]) l' xs" by blast
      have "\<exists>R'. repr (put_list s l ((nodes s)[fst x := None], l')) R' \<and> (\<forall>j. j \<noteq> l \<longrightarrow> R' j = R j)"
      by (rule repr_put[OF r l']) (use Cons in \<open>auto simp: hget_free\<close>)
    then obtain R' where
        "repr (put_list s l ((nodes s)[fst x := None], l')) R'" "\<forall>j. j \<noteq> l \<longrightarrow> R' j = R j" by blast
      with LL_pop_front c show ?thesis by auto
    qed
  next
    case (LL_front l out)
    with ll_front_total[OF ll[of l], of out] r show ?thesis by auto
  next
    case (LL_back l out)
    with ll_back_total[OF ll[of l], of out] r show ?thesis by auto
  next
    case (LL_insert l i v)
    show ?thesis
    proof (cases "i \<le> length (R l)")
      case True
      from ll_insert_spec[OF ll[of l] True, of v] obtain a h' l' where
        c: "ll_insert (nodes s) (lists s l) i v = Inr (1, h', l')"
        and l': "llist h' l' (take i (R l) @ (a, v) # drop i (R l))"
        and f0: "hget (nodes s) a = None"
          "\<forall>b. b \<noteq> a \<longrightarrow> b \<notin> owned (R l) \<longrightarrow> hget h' b = hget (nodes s) b" by blast
      have f: "hget (nodes s) a = None"
        "\<forall>b. b \<notin> owned (R l) \<longrightarrow> hget (nodes s) b \<noteq> None \<longrightarrow> hget h' b = hget (nodes s) b"
        using f0 by metis+
      have sub: "owned (take i (R l)) \<union> owned (drop i (R l)) = owned (R l)"
        using owned_simps(3)[of "take i (R l)" "drop i (R l)"] by simp
      have "\<exists>R'. repr (put_list s l (h', l')) R' \<and> (\<forall>j. j \<noteq> l \<longrightarrow> R' j = R j)"
      by (rule repr_put[OF r l']) (use f sub in \<open>auto\<close>)
    then obtain R' where
        "repr (put_list s l (h', l')) R'" "\<forall>j. j \<noteq> l \<longrightarrow> R' j = R j" by blast
      with LL_insert c show ?thesis by auto
    next
      case False
      with ll[of l] have "ll_insert (nodes s) (lists s l) i v = Inr (0, nodes s, lists s l)"
        by (simp add: ll_insert_out_of_range)
      with LL_insert repr_same[OF r, of l] show ?thesis by auto
    qed
  next
    case (LL_erase l i)
    show ?thesis
    proof (cases "i < length (R l)")
      case True
      from ll_erase_spec[OF ll[of l] True] obtain h' l' where
        c: "ll_erase (nodes s) (lists s l) i = Inr (1, h', l')"
        and l': "llist h' l' (take i (R l) @ drop (Suc i) (R l))"
        and f: "\<forall>b. b \<notin> owned (R l) \<longrightarrow> hget h' b = hget (nodes s) b" by blast
      have sub: "owned (take i (R l)) \<subseteq> owned (R l)" "owned (drop (Suc i) (R l)) \<subseteq> owned (R l)"
        by (auto simp: owned_def dest: in_set_takeD in_set_dropD)
      have "\<exists>R'. repr (put_list s l (h', l')) R' \<and> (\<forall>j. j \<noteq> l \<longrightarrow> R' j = R j)"
      by (rule repr_put[OF r l']) (use f sub in \<open>auto\<close>)
    then obtain R' where
        "repr (put_list s l (h', l')) R'" "\<forall>j. j \<noteq> l \<longrightarrow> R' j = R j" by blast
      with LL_erase c show ?thesis by auto
    next
      case False
      with ll[of l] have "ll_erase (nodes s) (lists s l) i = Inr (0, nodes s, lists s l)"
        by (simp add: ll_erase_out_of_range)
      with LL_erase repr_same[OF r, of l] show ?thesis by auto
    qed
  next
    case (LL_copy dst src)
    from ll_copy_spec[OF ll[of src]] obtain h' d zs where
      c: "ll_copy (nodes s) (lists s src) = Some (Inr (h', d))" and l': "llist h' d zs"
      and f: "\<forall>b \<in> owned zs. hget (nodes s) b = None"
        "\<forall>b. hget (nodes s) b \<noteq> None \<longrightarrow> hget h' b = hget (nodes s) b" by blast
    have "\<exists>R'. repr (put_list s dst (h', d)) R' \<and> (\<forall>j. j \<noteq> dst \<longrightarrow> R' j = R j)"
      by (rule repr_put[OF r l']) (use f in \<open>auto\<close>)
    then obtain R' where
      "repr (put_list s dst (h', d)) R'" "\<forall>j. j \<noteq> dst \<longrightarrow> R' j = R j" by blast
    with LL_copy c show ?thesis by auto
  next
    case (LL_move_from dst src)
    with repr_shuffle[OF r, of src dst] show ?thesis
      by (intro exI[of _ "(R(src := []))(dst := R src)"] exI) (simp add: ll_move_from_def)
  next
    case (LL_move_assign_from dst src)
    from ll_clear_spec[OF ll[of dst]] obtain h' l' where
      c: "ll_clear (nodes s) (lists s dst) = Inr (h', l')" and l': "llist h' l' []"
      and f: "\<forall>b. hget h' b = (if b \<in> owned (R dst) then None else hget (nodes s) b)" by blast
    have "\<exists>R'. repr (put_list s dst (h', l')) R' \<and> (\<forall>j. j \<noteq> dst \<longrightarrow> R' j = R j)"
      by (rule repr_put[OF r l']) (use f in \<open>auto\<close>)
    then obtain R1 where
      r1: "repr (put_list s dst (h', l')) R1" and o: "\<forall>j. j \<noteq> dst \<longrightarrow> R1 j = R j" by blast
    let ?s1 = "put_list s dst (h', l')"
    have e: "ll_move_assign_from s dst src =
               Inr (?s1\<lparr>lists := ((lists ?s1)(dst := lists ?s1 src))(src := ll_init)\<rparr>)"
      by (simp add: ll_move_assign_from_def c put_list_def Let_def)
    from repr_shuffle2[OF r1, of dst src] o LL_move_assign_from e show ?thesis
      by (intro exI[of _ "(R1(dst := R1 src))(src := [])"] exI) simp
  qed
qed

lemma ctor_eq: "LinkedList_ctor = ll_init"
  by (simp add: LinkedList_ctor_def ll_init_def)

lemma copyFrom_loop_spec:
  "path h n xs None \<Longrightarrow> llist h dst ys \<Longrightarrow> owned xs \<inter> owned ys = {} \<Longrightarrow>
   \<exists>h' dst' zs. copyFrom_loop h dst n = Some (Inr (h', dst')) \<and> llist h' dst' (ys @ zs) \<and>
      map snd zs = map snd xs \<and> (\<forall>b \<in> owned zs. hget h b = None) \<and>
      (\<forall>b. b \<notin> owned ys \<longrightarrow> hget h b \<noteq> None \<longrightarrow> hget h' b = hget h b)"
proof (induction xs arbitrary: h dst n ys)
  case Nil
  then have "copyFrom_loop h dst n = Some (Inr (h, dst))"
    by (subst copyFrom_loop.simps) simp
  with Nil show ?case by (intro exI[of _ h] exI[of _ dst] exI[of _ "[]"]) simp
next
  case (Cons x xs)
  from Cons.prems(1) obtain nd where n: "n = Some (fst x)" and nd: "hget h (fst x) = Some nd"
    "value nd = snd x" and rest: "path h (next nd) xs None"
    by (auto split: option.splits)
  from ll_push_back_spec[OF Cons.prems(2), of "snd x"] obtain c h1 dst1 where
    pb: "push_back h dst (snd x) = Inr (h1, dst1)" and l1: "llist h1 dst1 (ys @ [(c, snd x)])"
    and c: "hget h c = None" and fr: "\<forall>b. b \<noteq> c \<longrightarrow> b \<notin> owned ys \<longrightarrow> hget h1 b = hget h b"
    unfolding push_back_eq by blast
  have keep: "hget h1 b = hget h b" if "b \<in> owned (x # xs)" for b
  proof -
    from that Cons.prems(1) have "hget h b \<noteq> None" by (rule path_live[rotated])
    with c have "b \<noteq> c" by auto
    moreover from that Cons.prems(3) have "b \<notin> owned ys" by auto
    ultimately show ?thesis using fr by simp
  qed
  have nd1: "hget h1 (fst x) = Some nd" using keep[of "fst x"] nd by simp
  have rest1: "path h1 (next nd) xs None"
    using rest keep by (subst path_cong_heap[of xs h1 h]) auto
  have disj: "owned xs \<inter> owned (ys @ [(c, snd x)]) = {}"
  proof -
    have "c \<notin> owned xs" using path_live[OF rest, of c] c by auto
    with Cons.prems(3) show ?thesis by auto
  qed
  from Cons.IH[OF rest1 l1 disj] obtain h' dst' zs where
    r: "copyFrom_loop h1 dst1 (next nd) = Some (Inr (h', dst'))"
    and l': "llist h' dst' ((ys @ [(c, snd x)]) @ zs)" and vs: "map snd zs = map snd xs"
    and new: "\<forall>b \<in> owned zs. hget h1 b = None"
    and fr': "\<forall>b. b \<notin> owned (ys @ [(c, snd x)]) \<longrightarrow> hget h1 b \<noteq> None \<longrightarrow> hget h' b = hget h1 b"
    by blast
  have res: "copyFrom_loop h dst n = Some (Inr (h', dst'))"
    by (subst copyFrom_loop.simps) (simp add: n deref_Some[OF nd(1)] nd(2) pb deref_Some[OF nd1] r)
  have new': "\<forall>b \<in> owned ((c, snd x) # zs). hget h b = None"
  proof
    fix b assume b: "b \<in> owned ((c, snd x) # zs)"
    show "hget h b = None"
    proof (cases "b = c")
      case True
      with c show ?thesis by simp
    next
      case False
      with b have bz: "b \<in> owned zs" by simp
      with new have n1: "hget h1 b = None" by blast
      have "b \<notin> owned ys" using llist_live[OF l1, of b] n1 by auto
      with False fr n1 show ?thesis by simp
    qed
  qed
  have fr'': "\<forall>b. b \<notin> owned ys \<longrightarrow> hget h b \<noteq> None \<longrightarrow> hget h' b = hget h b"
  proof (intro allI impI)
    fix b assume b: "b \<notin> owned ys" "hget h b \<noteq> None"
    with c have bc: "b \<noteq> c" by auto
    with b fr have e: "hget h1 b = hget h b" by simp
    with b bc fr' show "hget h' b = hget h b" by simp
  qed
  show ?case
    using res l' vs new' fr'' nd(2)
    by (intro exI[of _ h'] exI[of _ dst'] exI[of _ "(c, snd x) # zs"]) simp
qed

lemma copy_ctor_spec:
  assumes "llist h other xs"
  shows "\<exists>h' this zs. copy_ctor h other = Some (Inr (h', this)) \<and> llist h' this zs \<and>
      map snd zs = map snd xs \<and> (\<forall>b \<in> owned zs. hget h b = None) \<and>
      (\<forall>b. hget h b \<noteq> None \<longrightarrow> hget h' b = hget h b)"
proof -
  from assms have p: "path h (head other) xs None" by (simp add: llist_def)
  from copyFrom_loop_spec[OF p llist_init] show ?thesis
    unfolding copy_ctor_def copyFrom_def ctor_eq by simp
qed

lemma pop_front_eq_any:
  "pop_front h l =
     (case ll_pop_front h l (Some p) of
        Inl e \<Rightarrow> Inl e
      | Inr (r, w, h1, l1) \<Rightarrow> Inr (r = 1, map_option snd w, h1, l1))"
  by (simp add: pop_front_def ll_pop_front_def Let_def split: sum.splits)

lemma LinkedList_overwrite:
  "(l::LinkedList)\<lparr>head := a, tail := b, size := c\<rparr> = \<lparr>head = a, tail = b, size = c\<rparr>"
  by (cases l) simp

lemma LinkedList_eta: "\<lparr>head = head l, tail = tail l, size = size l\<rparr> = (l::LinkedList)"
  by (cases l) simp

lemma move_assign_eq:
  "this \<noteq> other \<Longrightarrow> move_assign s this other = ll_move_assign_from s this other"
  by (simp add: move_assign_def ll_move_assign_from_def clear_eq Let_def ll_init_def
      LinkedList_overwrite LinkedList_eta split: sum.splits)

lemma front_spec: "llist h l (x # xs) \<Longrightarrow> front h l = Inr (snd x)"
  by (auto simp: front_def llist_def deref_def split: option.splits)

lemma back_spec:
  assumes "llist h l xs" "xs \<noteq> []"
  shows "back h l = Inr (snd (last xs))"
proof -
  from assms have "tail l = Some (fst (last xs))" by (simp add: llist_def)
  from llist_tail_live[OF assms(1) this] this show ?thesis
    by (auto simp: back_def deref_def)
qed

lemma front_empty: "llist h l [] \<Longrightarrow> front h l = Inl NullDeref"
  by (simp add: front_def llist_def deref_def)

lemma back_empty: "llist h l [] \<Longrightarrow> back h l = Inl NullDeref"
  by (simp add: back_def llist_def deref_def)

lemma toVector_spec: "llist h l xs \<Longrightarrow> toVector h l = Some (Inr (map snd xs))"
  using toVector_loop_spec[of h "head l" xs "[]"] by (simp add: toVector_def llist_def)

lemma print_list_spec: "llist h l xs \<Longrightarrow> print_list h l = Some (Inr (map snd xs))"
  using print_list_loop_spec[of h "head l" xs "[]"] by (simp add: print_list_def llist_def)

lemma repr_llist: "repr s R \<Longrightarrow> llist (nodes s) (lists s i) (R i)"
  by (simp add: repr_def)

lemma llist_size: "llist h l xs \<Longrightarrow> size l = length xs"
  by (simp add: llist_def)

lemma cpp_step_as_c:
  "cpp_step s (Ctor l) = c_step s (LL_init l)"
  "cpp_step s (Dtor l) = c_step s (LL_clear l)"
  "cpp_step s (Clear l) = c_step s (LL_clear l)"
  "cpp_step s (Empty l) = c_step s (LL_empty l)"
  "cpp_step s (Size l) = c_step s (LL_size l)"
  "cpp_step s (Push_front l v) = c_step s (LL_push_front l v)"
  "cpp_step s (Push_back l v) = c_step s (LL_push_back l v)"
  "cpp_step s (Pop_front l) = c_step s (LL_pop_front l (Some 0))"
  "cpp_step s (Insert l i v) = c_step s (LL_insert l i v)"
  "cpp_step s (Erase l i) = c_step s (LL_erase l i)"
  "this \<noteq> other \<Longrightarrow> cpp_step s (Move_assign this other) = c_step s (LL_move_assign_from this other)"
  by (simp_all add: ctor_eq dtor_def clear_eq push_front_eq push_back_eq
      pop_front_eq_any[of _ _ "0::nat"] insert_at_eq erase_eq move_assign_eq
      split: sum.splits prod.splits)

lemma cpp_step_repr:
  assumes r: "repr s R" and pre: "cpp_pre s op"
  shows "\<exists>s' R'. cpp_step s op = Some (Inr s') \<and> repr s' R' \<and>
           (\<forall>j. j \<notin> cpp_writes op \<longrightarrow> R' j = R j)"
proof -
  have ll: "\<And>i. llist (nodes s) (lists s i) (R i)" using r by (simp add: repr_def)
  show ?thesis
  proof (cases op)
    case (Ctor l)
    show ?thesis
      unfolding Ctor cpp_step_as_c using c_step_repr[OF r, of "LL_init l"] by simp
  next
    case (Copy_ctor l other)
    from copy_ctor_spec[OF ll[of other]] obtain h' l' zs where
      c: "copy_ctor (nodes s) (lists s other) = Some (Inr (h', l'))" and l': "llist h' l' zs"
      and f: "\<forall>b \<in> owned zs. hget (nodes s) b = None"
        "\<forall>b. hget (nodes s) b \<noteq> None \<longrightarrow> hget h' b = hget (nodes s) b" by blast
    have "\<exists>R'. repr (put_list s l (h', l')) R' \<and> (\<forall>j. j \<noteq> l \<longrightarrow> R' j = R j)"
      by (rule repr_put[OF r l']) (use f in auto)
    with Copy_ctor c show ?thesis by auto
  next
    case (Move_ctor l other)
    have "cpp_step s op =
            Some (Inr (s\<lparr>lists := ((lists s)(l := lists s other))(other := ll_init)\<rparr>))"
      by (simp add: Move_ctor move_ctor_def LinkedList_overwrite LinkedList_eta ll_init_def)
    with repr_shuffle2[OF r, of l other] Move_ctor show ?thesis
      by (intro exI[of _ "(R(l := R other))(other := [])"] exI) simp
  next
    case (Copy_assign l other)
    show ?thesis
    proof (cases "l = other")
      case True
      with Copy_assign r show ?thesis by (auto simp: copy_assign_def)
    next
      case False
      from ll_clear_spec[OF ll[of l]] obtain h1 l1 where
        c: "clear (nodes s) (lists s l) = Inr (h1, l1)" and l1: "llist h1 l1 []"
        and f: "\<forall>b. hget h1 b = (if b \<in> owned (R l) then None else hget (nodes s) b)"
        unfolding clear_eq by blast
      have "\<exists>R'. repr (put_list s l (h1, l1)) R' \<and> (\<forall>j. j \<noteq> l \<longrightarrow> R' j = R j)"
        by (rule repr_put[OF r l1]) (use f in auto)
      then obtain R1 where r1: "repr (put_list s l (h1, l1)) R1"
        and o1: "\<forall>j. j \<noteq> l \<longrightarrow> R1 j = R j" by blast
      let ?s1 = "put_list s l (h1, l1)"
      from repr_llist[OF r1, of other] False
      have p: "path h1 (head (lists s other)) (R1 other) None"
        by (simp add: llist_def put_list_def)
      from copyFrom_loop_spec[OF p l1] obtain h2 l2 zs where
        c2: "copyFrom_loop h1 l1 (head (lists s other)) = Some (Inr (h2, l2))"
        and l2: "llist h2 l2 zs"
        and f2: "\<forall>b \<in> owned zs. hget h1 b = None"
          "\<forall>b. hget h1 b \<noteq> None \<longrightarrow> hget h2 b = hget h1 b" by auto
      have "\<exists>R'. repr (put_list ?s1 l (h2, l2)) R' \<and> (\<forall>j. j \<noteq> l \<longrightarrow> R' j = R1 j)"
        by (rule repr_put[OF r1 l2]) (use f2 in \<open>auto simp: put_list_def\<close>)
      then obtain R2 where r2: "repr (put_list ?s1 l (h2, l2)) R2"
        and o2: "\<forall>j. j \<noteq> l \<longrightarrow> R2 j = R1 j" by blast
      have "copy_assign s l other = Some (Inr (put_list ?s1 l (h2, l2)))"
        using False by (simp add: copy_assign_def c copyFrom_def c2 put_list_def)
      with Copy_assign r2 o1 o2 show ?thesis by auto
    qed
  next
    case (Move_assign l other)
    show ?thesis
    proof (cases "l = other")
      case True
      with Move_assign r show ?thesis by (auto simp: move_assign_def)
    next
      case False
      show ?thesis
        unfolding Move_assign cpp_step_as_c(11)[OF False]
        using c_step_repr[OF r, of "LL_move_assign_from l other"] by simp
    qed
  next
    case (Dtor l)
    show ?thesis
      unfolding Dtor cpp_step_as_c using c_step_repr[OF r, of "LL_clear l"] by simp
  next
    case (Empty l)
    with r show ?thesis by auto
  next
    case (Size l)
    with r show ?thesis by auto
  next
    case (Clear l)
    show ?thesis
      unfolding Clear cpp_step_as_c using c_step_repr[OF r, of "LL_clear l"] by simp
  next
    case (Push_front l v)
    show ?thesis
      unfolding Push_front cpp_step_as_c using c_step_repr[OF r, of "LL_push_front l v"] by simp
  next
    case (Push_back l v)
    show ?thesis
      unfolding Push_back cpp_step_as_c using c_step_repr[OF r, of "LL_push_back l v"] by simp
  next
    case (Pop_front l)
    show ?thesis
      unfolding Pop_front cpp_step_as_c using c_step_repr[OF r, of "LL_pop_front l (Some 0)"] by simp
  next
    case (Front l)
    with pre llist_size[OF ll[of l]] obtain x xs where "R l = x # xs"
      by (cases "R l") (auto simp: empty_def)
    with ll[of l] have "front (nodes s) (lists s l) = Inr (snd x)" by (simp add: front_spec)
    with Front r show ?thesis by auto
  next
    case (Back l)
    with pre llist_size[OF ll[of l]] have "R l \<noteq> []" by (auto simp: empty_def)
    from back_spec[OF ll[of l] this] Back r show ?thesis by auto
  next
    case (Insert l i v)
    show ?thesis
      unfolding Insert cpp_step_as_c using c_step_repr[OF r, of "LL_insert l i v"] by simp
  next
    case (Erase l i)
    show ?thesis
      unfolding Erase cpp_step_as_c using c_step_repr[OF r, of "LL_erase l i"] by simp
  next
    case (ToVector l)
    with toVector_spec[OF ll[of l]] r show ?thesis by auto
  qed
qed

lemma cpp_step_fault:
  assumes r: "repr s R" and pre: "\<not> cpp_pre s op"
  shows "cpp_step s op = Some (Inl NullDeref)"
proof -
  have ll: "\<And>i. llist (nodes s) (lists s i) (R i)" using r by (simp add: repr_def)
  from pre consider l where "op = Front l" "empty (lists s l)" | l where "op = Back l" "empty (lists s l)"
    by (cases op) auto
  then show ?thesis
  proof cases
    case 1
    with llist_size[OF ll[of l]] have "R l = []" by (simp add: empty_def)
    with ll[of l] 1 show ?thesis by (simp add: front_empty)
  next
    case 2
    with llist_size[OF ll[of l]] have "R l = []" by (simp add: empty_def)
    with ll[of l] 2 show ?thesis by (simp add: back_empty)
  qed
qed

lemma c_run_repr:
  "repr s R \<Longrightarrow>
   \<exists>s' R'. c_run ops s = Some (Inr s') \<and> repr s' R' \<and>
     (\<forall>j. j \<notin> \<Union> (c_writes ` set ops) \<longrightarrow> R' j = R j)"
proof (induction ops arbitrary: s R)
  case Nil
  then show ?case by auto
next
  case (Cons op ops)
  from c_step_repr[OF Cons.prems, of op] obtain s1 R1 where
    s1: "c_step s op = Some (Inr s1)" "repr s1 R1" "\<forall>j. j \<notin> c_writes op \<longrightarrow> R1 j = R j" by blast
  from Cons.IH[OF s1(2)] obtain s' R' where
    s': "c_run ops s1 = Some (Inr s')" "repr s' R'"
    "\<forall>j. j \<notin> \<Union> (c_writes ` set ops) \<longrightarrow> R' j = R1 j" by blast
  have "c_run (op # ops) s = Some (Inr s')" using s1(1) s'(1) by simp
  moreover have "\<forall>j. j \<notin> \<Union> (c_writes ` set (op # ops)) \<longrightarrow> R' j = R j"
    using s1(3) s'(3) by simp
  ultimately show ?case using s'(2) by blast
qed

lemma cpp_run_repr:
  "repr s R \<Longrightarrow> cpp_calls_ok s ops \<Longrightarrow>
   \<exists>s' R'. cpp_run ops s = Some (Inr s') \<and> repr s' R' \<and>
     (\<forall>j. j \<notin> \<Union> (cpp_writes ` set ops) \<longrightarrow> R' j = R j)"
proof (induction ops arbitrary: s R)
  case Nil
  then show ?case by auto
next
  case (Cons op ops)
  from Cons.prems(2) have pre: "cpp_pre s op" by simp
  from cpp_step_repr[OF Cons.prems(1) pre] obtain s1 R1 where
    s1: "cpp_step s op = Some (Inr s1)" "repr s1 R1" "\<forall>j. j \<notin> cpp_writes op \<longrightarrow> R1 j = R j"
    by blast
  from Cons.prems(2) s1(1) have "cpp_calls_ok s1 ops" by simp
  from Cons.IH[OF s1(2) this] obtain s' R' where
    s': "cpp_run ops s1 = Some (Inr s')" "repr s' R'"
    "\<forall>j. j \<notin> \<Union> (cpp_writes ` set ops) \<longrightarrow> R' j = R1 j" by blast
  have "cpp_run (op # ops) s = Some (Inr s')" using s1(1) s'(1) by simp
  moreover have "\<forall>j. j \<notin> \<Union> (cpp_writes ` set (op # ops)) \<longrightarrow> R' j = R j"
    using s1(3) s'(3) by simp
  ultimately show ?case using s'(2) by blast
qed

lemma cpp_run_calls_ok:
  "repr s R \<Longrightarrow> cpp_run ops s = Some (Inr s') \<Longrightarrow> cpp_calls_ok s ops"
proof (induction ops arbitrary: s R)
  case Nil
  then show ?case by simp
next
  case (Cons op ops)
  have pre: "cpp_pre s op"
  proof (rule ccontr)
    assume "\<not> cpp_pre s op"
    from cpp_step_fault[OF Cons.prems(1) this] Cons.prems(2) show False by simp
  qed
  from cpp_step_repr[OF Cons.prems(1) pre] obtain s1 R1 where
    s1: "cpp_step s op = Some (Inr s1)" "repr s1 R1" by blast
  with Cons.prems(2) have "cpp_run ops s1 = Some (Inr s')" by simp
  from Cons.IH[OF s1(2) this] pre s1(1) show ?case by simp
qed

lemma llist_structural:
  assumes "llist h l xs"
  shows "structural_invariant h l"
proof -
  from assms have p: "path h (head l) xs None" and sz: "size l = length xs"
    and t: "tail l = (if xs = [] then None else Some (fst (last xs)))"
    by (simp_all add: llist_def)
  have hd: "(head l = None) = (xs = [])" using p by (cases xs) auto
  have "\<exists>n. hget h t = Some n \<and> next n = None" if "tail l = Some t" for t
    using llist_tail_live[OF assms that] by blast
  with p sz t hd show ?thesis
    unfolding structural_invariant_def by auto
qed

lemma repr_structural: "repr s R \<Longrightarrow> structural_invariant (nodes s) (lists s l)"
  using llist_structural[OF repr_llist] .

section \<open>Claims\<close>

lemmas eval_defs =
  start_def put_list_def ll_init_def LinkedList_ctor_def
  hget_def hput_def malloc_def deref_def free_def set_next_def new_Node_def
  ll_push_front_def ll_push_back_def ll_pop_front_def ll_front_def ll_back_def
  ll_insert_def ll_erase_def ll_clear_def ll_move_from_def ll_move_assign_from_def
  push_front_def push_back_def pop_front_def front_def back_def insert_at_def erase_def
  clear_def dtor_def empty_def size_of_def ll_empty_def ll_size_def move_ctor_def move_assign_def
  Let_def

lemma llist_one: "llist [Some \<lparr>value = 7, next = None\<rparr>] \<lparr>head = Some 0, tail = Some 0, size = 1\<rparr> [(0, 7)]"
  by (simp add: llist_def hget_def)

lemma repr_start: "repr (start h) (\<lambda>l. [])"
  by (simp add: repr_def start_def llist_init)

lemma calls_ok_example:
  "cpp_calls_ok (start []) [Push_front 0 2, Push_back 0 5, Push_front 0 1, Front 0, Back 0, Pop_front 0]"
  by (simp add: eval_defs)

text \<open>
  C1. After any finite sequence of public operations on freshly initialised lists the
  structural invariant holds for every list: the size is the number of nodes reachable
  from the head, the tail (if present) has no successor, and the size is zero exactly
  when the head is null and exactly when the tail is null. For the C interface every
  sequence runs to completion. For the C++ class every sequence that calls
  \<^verbatim>\<open>front()\<close> and \<^verbatim>\<open>back()\<close> on non-empty lists only runs to completion, and
  every sequence that completes leaves the invariant in place.
\<close>

theorem C1_invariant_preservation:
  "(\<exists>s. c_run ops (start h) = Some (Inr s) \<and>
         (\<forall>l. structural_invariant (nodes s) (lists s l))) \<and>
   (cpp_calls_ok (start h) cops \<longrightarrow>
      (\<exists>s. cpp_run cops (start h) = Some (Inr s) \<and>
           (\<forall>l. structural_invariant (nodes s) (lists s l)))) \<and>
   (\<forall>s. cpp_run cops (start h) = Some (Inr s) \<longrightarrow>
        (\<forall>l. structural_invariant (nodes s) (lists s l)))"
proof (intro conjI impI allI)
  from c_run_repr[OF repr_start, of ops h] obtain s R where
    "c_run ops (start h) = Some (Inr s)" "repr s R" by blast
  then show "\<exists>s. c_run ops (start h) = Some (Inr s) \<and>
         (\<forall>l. structural_invariant (nodes s) (lists s l))"
    using repr_structural by blast
next
  assume "cpp_calls_ok (start h) cops"
  from cpp_run_repr[OF repr_start this] obtain s R where
    "cpp_run cops (start h) = Some (Inr s)" "repr s R" by blast
  then show "\<exists>s. cpp_run cops (start h) = Some (Inr s) \<and>
         (\<forall>l. structural_invariant (nodes s) (lists s l))"
    using repr_structural by blast
next
  fix s l assume run: "cpp_run cops (start h) = Some (Inr s)"
  from cpp_run_calls_ok[OF repr_start run] have "cpp_calls_ok (start h) cops" .
  from cpp_run_repr[OF repr_start this] run obtain R where "repr s R" by auto
  then show "structural_invariant (nodes s) (lists s l)" by (rule repr_structural)
qed

theorem C1_invariant_preservation_witness:
  "cpp_calls_ok (start []) [Push_front 0 2, Push_back 0 5, Push_front 0 1, Front 0, Back 0, Pop_front 0] \<and>
   (\<exists>s. c_run [LL_push_front 0 2, LL_push_back 0 5, LL_push_front 0 1, LL_pop_front 0 None] (start []) = Some (Inr s) \<and>
        (\<forall>l. structural_invariant (nodes s) (lists s l))) \<and>
   (\<exists>s. cpp_run [Push_front 0 2, Push_back 0 5, Push_front 0 1, Front 0, Back 0, Pop_front 0] (start []) = Some (Inr s) \<and>
        (\<forall>l. structural_invariant (nodes s) (lists s l)))"
  using C1_invariant_preservation[of "[LL_push_front 0 2, LL_push_back 0 5, LL_push_front 0 1, LL_pop_front 0 None]" "[]"
      "[Push_front 0 2, Push_back 0 5, Push_front 0 1, Front 0, Back 0, Pop_front 0]"]
    calls_ok_example by blast

lemma pop_front_spec:
  assumes "llist h l (x # xs)"
  shows "\<exists>l'. ll_pop_front h l out =
              Inr (1, map_option (\<lambda>p. (p, snd x)) out, h[fst x := None], l') \<and>
           pop_front h l = Inr (True, Some (snd x), h[fst x := None], l') \<and>
           llist (h[fst x := None]) l' xs \<and> size l' = size l - 1"
proof -
  from ll_pop_front_spec[OF assms, of out] obtain l' where
    a: "ll_pop_front h l out = Inr (1, map_option (\<lambda>p. (p, snd x)) out, h[fst x := None], l')"
    and b: "llist (h[fst x := None]) l' xs" "size l' = size l - 1" by blast
  from ll_pop_front_spec[OF assms, of "Some ()"] obtain l'' where
    c: "ll_pop_front h l (Some ()) = Inr (1, Some ((), snd x), h[fst x := None], l'')" by auto
  have "l'' = l'"
    using a c by (cases out) (auto simp: ll_pop_front_def Let_def split: if_splits sum.splits)
  with c have "pop_front h l = Inr (True, Some (snd x), h[fst x := None], l')"
    by (simp add: pop_front_eq)
  with a b show ?thesis by blast
qed

text \<open>
  C2. On a list of exactly one element, popping the front, erasing index 0 and erasing
  the tail index (\<open>size - 1\<close>) all leave head and tail null and size 0, in C and in
  C++. A following \<^verbatim>\<open>push_front\<close> or \<^verbatim>\<open>push_back\<close> on that list succeeds and
  yields a well-formed single-element list whose head and tail are the same node.
\<close>

theorem C2_empty_transition:
  assumes "llist h l [x]"
  shows "\<exists>h1 l1.
           ll_pop_front h l out = Inr (1, map_option (\<lambda>p. (p, snd x)) out, h1, l1) \<and>
           ll_erase h l 0 = Inr (1, h1, l1) \<and> ll_erase h l (size l - 1) = Inr (1, h1, l1) \<and>
           pop_front h l = Inr (True, Some (snd x), h1, l1) \<and>
           erase h l 0 = Inr (True, h1, l1) \<and> erase h l (size l - 1) = Inr (True, h1, l1) \<and>
           head l1 = None \<and> tail l1 = None \<and> size l1 = 0 \<and>
           (\<exists>a h2 l2. ll_push_front h1 l1 v = Inr (h2, l2) \<and> push_front h1 l1 v = Inr (h2, l2) \<and>
              llist h2 l2 [(a, v)] \<and> structural_invariant h2 l2 \<and>
              head l2 = Some a \<and> tail l2 = Some a \<and> size l2 = 1) \<and>
           (\<exists>a h2 l2. ll_push_back h1 l1 v = Inr (h2, l2) \<and> push_back h1 l1 v = Inr (h2, l2) \<and>
              llist h2 l2 [(a, v)] \<and> structural_invariant h2 l2 \<and>
              head l2 = Some a \<and> tail l2 = Some a \<and> size l2 = 1)"
proof -
  from assms have sz: "size l = 1" by (simp add: llist_def)
  from pop_front_spec[OF assms, of out] obtain l1 where
    p: "ll_pop_front h l out = Inr (1, map_option (\<lambda>p. (p, snd x)) out, h[fst x := None], l1)"
    "pop_front h l = Inr (True, Some (snd x), h[fst x := None], l1)"
    and l1: "llist (h[fst x := None]) l1 []" by blast
  let ?h1 = "h[fst x := None]"
  from pop_front_spec[OF assms, of "Some ()"] p(2) have
    u: "ll_pop_front h l (Some ()) = Inr (1, Some ((), snd x), ?h1, l1)" by auto
  have e: "ll_erase h l 0 = Inr (1, ?h1, l1)" "erase h l 0 = Inr (True, ?h1, l1)"
    using sz u p(2) by (simp_all add: ll_erase_def erase_def)
  from l1 have f: "head l1 = None" "tail l1 = None" "size l1 = 0" by (simp_all add: llist_def)
  from ll_push_front_spec[OF l1, of v] obtain a h2 l2 where
    pf: "ll_push_front ?h1 l1 v = Inr (h2, l2)" "llist h2 l2 [(a, v)]" by blast
  from ll_push_back_spec[OF l1, of v] obtain b h3 l3 where
    pb: "ll_push_back ?h1 l1 v = Inr (h3, l3)" "llist h3 l3 [(b, v)]" by auto
  have one: "head m = Some c \<and> tail m = Some c \<and> size m = 1 \<and> structural_invariant g m"
    if "llist g m [(c, v)]" for g m c
    using that llist_structural[OF that] by (auto simp: llist_def split: option.splits)
  have F: "\<exists>a h2 l2. ll_push_front ?h1 l1 v = Inr (h2, l2) \<and> push_front ?h1 l1 v = Inr (h2, l2) \<and>
              llist h2 l2 [(a, v)] \<and> structural_invariant h2 l2 \<and>
              head l2 = Some a \<and> tail l2 = Some a \<and> size l2 = 1"
    using pf one[OF pf(2)] by (intro exI[of _ a] exI[of _ h2] exI[of _ l2]) (simp add: push_front_eq)
  have B: "\<exists>a h2 l2. ll_push_back ?h1 l1 v = Inr (h2, l2) \<and> push_back ?h1 l1 v = Inr (h2, l2) \<and>
              llist h2 l2 [(a, v)] \<and> structural_invariant h2 l2 \<and>
              head l2 = Some a \<and> tail l2 = Some a \<and> size l2 = 1"
    using pb one[OF pb(2)] by (intro exI[of _ b] exI[of _ h3] exI[of _ l3]) (simp add: push_back_eq)
  show ?thesis
    using p e f F B sz
    by (intro exI[of _ ?h1] exI[of _ l1]) simp
qed

theorem C2_empty_transition_witness:
  "llist [Some \<lparr>value = 7, next = None\<rparr>] \<lparr>head = Some 0, tail = Some 0, size = 1\<rparr> [(0, 7)] \<and>
   (\<exists>h1 l1.
      ll_pop_front [Some \<lparr>value = 7, next = None\<rparr>] \<lparr>head = Some 0, tail = Some 0, size = 1\<rparr>
        (Some (3::nat)) = Inr (1, Some (3, 7), h1, l1) \<and>
      erase [Some \<lparr>value = 7, next = None\<rparr>] \<lparr>head = Some 0, tail = Some 0, size = 1\<rparr> 0 =
        Inr (True, h1, l1) \<and>
      head l1 = None \<and> tail l1 = None \<and> size l1 = 0 \<and>
      (\<exists>a h2 l2. ll_push_back h1 l1 9 = Inr (h2, l2) \<and> push_back h1 l1 9 = Inr (h2, l2) \<and>
         llist h2 l2 [(a, 9)] \<and> head l2 = Some a \<and> tail l2 = Some a \<and> size l2 = 1))"
proof -
  from C2_empty_transition[OF llist_one, of "Some (3::nat)" 9] obtain h1 l1 where
    A: "ll_pop_front [Some \<lparr>value = 7, next = None\<rparr>] \<lparr>head = Some 0, tail = Some 0, size = 1\<rparr>
        (Some (3::nat)) = Inr (1, Some (3, 7), h1, l1)"
    "erase [Some \<lparr>value = 7, next = None\<rparr>] \<lparr>head = Some 0, tail = Some 0, size = 1\<rparr> 0 =
        Inr (True, h1, l1)"
    "head l1 = None" "tail l1 = None" "size l1 = 0"
    "\<exists>a h2 l2. ll_push_back h1 l1 9 = Inr (h2, l2) \<and> push_back h1 l1 9 = Inr (h2, l2) \<and>
         llist h2 l2 [(a, 9)] \<and> structural_invariant h2 l2 \<and>
         head l2 = Some a \<and> tail l2 = Some a \<and> size l2 = 1"
    by (elim exE conjE) simp
  from A(6) have "\<exists>a h2 l2. ll_push_back h1 l1 9 = Inr (h2, l2) \<and> push_back h1 l1 9 = Inr (h2, l2) \<and>
         llist h2 l2 [(a, 9)] \<and> head l2 = Some a \<and> tail l2 = Some a \<and> size l2 = 1"
    by blast
  with A(1-5) llist_one show ?thesis by blast
qed

text \<open>
  C3. On a list of size \<open>n\<close>: inserting at index \<open>n\<close> succeeds and appends the value
  at the tail; inserting at any index greater than \<open>n\<close> fails and leaves the node store
  and the list unchanged; erasing at any index \<open>\<ge> n\<close> (so any erase on an empty list)
  fails and leaves them unchanged. In C and in C++.
\<close>

theorem C3_index_boundary:
  assumes "llist h l xs"
  shows "(\<exists>a h' l'. ll_insert h l (size l) v = Inr (1, h', l') \<and>
            insert_at h l (size l) v = Inr (True, h', l') \<and>
            llist h' l' (xs @ [(a, v)]) \<and> tail l' = Some a \<and> size l' = size l + 1 \<and>
            print_list h' l' = Some (Inr (map snd xs @ [v])) \<and>
            toVector h' l' = Some (Inr (map snd xs @ [v]))) \<and>
         (\<forall>i. size l < i \<longrightarrow>
            ll_insert h l i v = Inr (0, h, l) \<and> insert_at h l i v = Inr (False, h, l)) \<and>
         (\<forall>i. size l \<le> i \<longrightarrow>
            ll_erase h l i = Inr (0, h, l) \<and> erase h l i = Inr (False, h, l))"
proof (intro conjI allI impI)
  from assms have sz: "size l = length xs" by (simp add: llist_def)
  from ll_insert_spec[OF assms, of "length xs" v] obtain a h' l' where
    i: "ll_insert h l (length xs) v = Inr (1, h', l')" and l': "llist h' l' (xs @ [(a, v)])"
    by auto
  from l' have "tail l' = Some a" "size l' = size l + 1" using sz by (simp_all add: llist_def)
  with i l' print_list_spec[OF l'] toVector_spec[OF l'] sz
  show "\<exists>a h' l'. ll_insert h l (size l) v = Inr (1, h', l') \<and>
            insert_at h l (size l) v = Inr (True, h', l') \<and>
            llist h' l' (xs @ [(a, v)]) \<and> tail l' = Some a \<and> size l' = size l + 1 \<and>
            print_list h' l' = Some (Inr (map snd xs @ [v])) \<and>
            toVector h' l' = Some (Inr (map snd xs @ [v]))"
    by (intro exI[of _ a] exI[of _ h'] exI[of _ l']) (simp add: insert_at_eq)
next
  fix i assume "size l < i"
  with assms have "ll_insert h l i v = Inr (0, h, l)"
    by (intro ll_insert_out_of_range) (simp_all add: llist_def)
  then show "ll_insert h l i v = Inr (0, h, l)" "insert_at h l i v = Inr (False, h, l)"
    by (simp_all add: insert_at_eq)
next
  fix i assume "size l \<le> i"
  with assms have "ll_erase h l i = Inr (0, h, l)"
    by (intro ll_erase_out_of_range) (simp_all add: llist_def)
  then show "ll_erase h l i = Inr (0, h, l)" "erase h l i = Inr (False, h, l)"
    by (simp_all add: erase_eq)
qed

theorem C3_index_boundary_witness:
  "llist [Some \<lparr>value = 7, next = None\<rparr>] \<lparr>head = Some 0, tail = Some 0, size = 1\<rparr> [(0, 7)] \<and>
   (\<exists>a h' l'.
      ll_insert [Some \<lparr>value = 7, next = None\<rparr>] \<lparr>head = Some 0, tail = Some 0, size = 1\<rparr> 1 9 =
        Inr (1, h', l') \<and>
      llist h' l' [(0, 7), (a, 9)] \<and> toVector h' l' = Some (Inr [7, 9])) \<and>
   ll_insert [Some \<lparr>value = 7, next = None\<rparr>] \<lparr>head = Some 0, tail = Some 0, size = 1\<rparr> 2 9 =
     Inr (0, [Some \<lparr>value = 7, next = None\<rparr>], \<lparr>head = Some 0, tail = Some 0, size = 1\<rparr>) \<and>
   erase [Some \<lparr>value = 7, next = None\<rparr>] \<lparr>head = Some 0, tail = Some 0, size = 1\<rparr> 1 =
     Inr (False, [Some \<lparr>value = 7, next = None\<rparr>], \<lparr>head = Some 0, tail = Some 0, size = 1\<rparr>) \<and>
   ll_erase [] ll_init 0 = Inr (0, [], ll_init)"
proof -
  note T = C3_index_boundary[OF llist_one, of 9]
  from T obtain a h' l' where
    "ll_insert [Some \<lparr>value = 7, next = None\<rparr>] \<lparr>head = Some 0, tail = Some 0, size = 1\<rparr> 1 9 =
        Inr (1, h', l')"
    "llist h' l' [(0, 7), (a, 9)]" "toVector h' l' = Some (Inr [7, 9])"
    by (elim exE conjE) simp
  moreover from T have
    "ll_insert [Some \<lparr>value = 7, next = None\<rparr>] \<lparr>head = Some 0, tail = Some 0, size = 1\<rparr> 2 9 =
     Inr (0, [Some \<lparr>value = 7, next = None\<rparr>], \<lparr>head = Some 0, tail = Some 0, size = 1\<rparr>)"
    "erase [Some \<lparr>value = 7, next = None\<rparr>] \<lparr>head = Some 0, tail = Some 0, size = 1\<rparr> 1 =
     Inr (False, [Some \<lparr>value = 7, next = None\<rparr>], \<lparr>head = Some 0, tail = Some 0, size = 1\<rparr>)"
    by simp_all
  moreover from C3_index_boundary[OF llist_init, of "[]" 9]
  have "ll_erase [] ll_init 0 = Inr (0, [], ll_init)" by (simp add: ll_init_def)
  ultimately show ?thesis using llist_one by blast
qed

text \<open>
  C4. \<^verbatim>\<open>ll_pop_front\<close> and \<^verbatim>\<open>pop_front\<close> on an empty list return the failure
  flag, write no value and leave the node store and the list as they were. On a
  non-empty list they return the success flag and the value stored at the head, the
  new head is the successor of the old head, the size drops by exactly one, and when
  the new head is null the tail is null too.
\<close>

theorem C4_pop_front:
  "(llist h l [] \<longrightarrow>
      ll_pop_front h l out = Inr (0, None, h, l) \<and> pop_front h l = Inr (False, None, h, l)) \<and>
   (llist h l (x # xs) \<longrightarrow>
      (\<exists>h' l' n.
          ll_pop_front h l out = Inr (1, map_option (\<lambda>p. (p, snd x)) out, h', l') \<and>
          pop_front h l = Inr (True, Some (snd x), h', l') \<and>
          llist h' l' xs \<and>
          head l = Some (fst x) \<and> hget h (fst x) = Some n \<and> value n = snd x \<and>
          head l' = next n \<and> size l' + 1 = size l \<and>
          (head l' = None \<longrightarrow> tail l' = None \<and> size l' = 0)))"
proof (intro conjI impI)
  assume e: "llist h l []"
  then show "ll_pop_front h l out = Inr (0, None, h, l)" by (rule ll_pop_front_empty)
  from e show "pop_front h l = Inr (False, None, h, l)"
    by (simp add: pop_front_def llist_def)
next
  assume a: "llist h l (x # xs)"
  from pop_front_spec[OF a, of out] obtain l' where
    r: "ll_pop_front h l out = Inr (1, map_option (\<lambda>p. (p, snd x)) out, h[fst x := None], l')"
    "pop_front h l = Inr (True, Some (snd x), h[fst x := None], l')"
    "llist (h[fst x := None]) l' xs" "size l' = size l - 1" by blast
  from a obtain n where n: "head l = Some (fst x)" "hget h (fst x) = Some n" "value n = snd x"
    "path h (next n) xs None"
    by (auto simp: llist_def split: option.splits)
  from r(2) n have hd: "head l' = next n"
    by (auto simp: pop_front_def deref_def Let_def split: if_splits sum.splits)
  from a have "size l = Suc (length xs)" by (simp add: llist_def)
  with r(4) have sz: "size l' + 1 = size l" by simp
  have tl: "head l' = None \<longrightarrow> tail l' = None \<and> size l' = 0"
  proof
    assume "head l' = None"
    with r(3) have "xs = []" by (cases xs) (auto simp: llist_def)
    with r(3) show "tail l' = None \<and> size l' = 0" by (simp add: llist_def)
  qed
  from r n hd sz tl show "\<exists>h' l' n.
          ll_pop_front h l out = Inr (1, map_option (\<lambda>p. (p, snd x)) out, h', l') \<and>
          pop_front h l = Inr (True, Some (snd x), h', l') \<and>
          llist h' l' xs \<and>
          head l = Some (fst x) \<and> hget h (fst x) = Some n \<and> value n = snd x \<and>
          head l' = next n \<and> size l' + 1 = size l \<and>
          (head l' = None \<longrightarrow> tail l' = None \<and> size l' = 0)"
    by (intro exI[of _ "h[fst x := None]"] exI[of _ l'] exI[of _ n]) simp
qed

theorem C4_pop_front_witness:
  "llist [] ll_init [] \<and>
   ll_pop_front [] ll_init (Some (3::nat)) = Inr (0, None, [], ll_init) \<and>
   pop_front [] ll_init = Inr (False, None, [], ll_init) \<and>
   llist [Some \<lparr>value = 7, next = None\<rparr>] \<lparr>head = Some 0, tail = Some 0, size = 1\<rparr> [(0, 7)] \<and>
   (\<exists>h' l'.
      ll_pop_front [Some \<lparr>value = 7, next = None\<rparr>] \<lparr>head = Some 0, tail = Some 0, size = 1\<rparr>
        (Some (3::nat)) = Inr (1, Some (3, 7), h', l') \<and>
      pop_front [Some \<lparr>value = 7, next = None\<rparr>] \<lparr>head = Some 0, tail = Some 0, size = 1\<rparr> =
        Inr (True, Some 7, h', l') \<and>
      llist h' l' [] \<and> head l' = None \<and> tail l' = None \<and> size l' = 0)"
proof -
  have e: "llist [] ll_init []" by (rule llist_init)
  from C4_pop_front[of "[]" ll_init "Some (3::nat)"] e
  have 1: "ll_pop_front [] ll_init (Some (3::nat)) = Inr (0, None, [], ll_init)"
    "pop_front [] ll_init = Inr (False, None, [], ll_init)" by blast+
  note A = conjunct2[OF C4_pop_front[of "[Some \<lparr>value = 7, next = None\<rparr>]"
      "\<lparr>head = Some 0, tail = Some 0, size = 1\<rparr>" "Some (3::nat)" "(0, 7)" "[]"], THEN mp, OF llist_one]
  from A obtain h' l' where B:
    "ll_pop_front [Some \<lparr>value = 7, next = None\<rparr>] \<lparr>head = Some 0, tail = Some 0, size = 1\<rparr>
        (Some (3::nat)) = Inr (1, Some (3, 7), h', l')"
    "pop_front [Some \<lparr>value = 7, next = None\<rparr>] \<lparr>head = Some 0, tail = Some 0, size = 1\<rparr> =
        Inr (True, Some 7, h', l')"
    "llist h' l' []"
    by (elim exE conjE) simp
  from B(3) have "head l' = None" "tail l' = None" "size l' = 0" by (simp_all add: llist_def)
  with B e 1 llist_one show ?thesis by blast
qed

text \<open>
  C5. The claim fails on the C++ class: \<^verbatim>\<open>front()\<close> and \<^verbatim>\<open>back()\<close> have no guard and
  read through the null \<^verbatim>\<open>head_\<close> / \<^verbatim>\<open>tail_\<close> of an empty list. On a freshly
  constructed list both calls are a null dereference. (The C functions
  \<^verbatim>\<open>ll_front\<close> and \<^verbatim>\<open>ll_back\<close> test the pointer and return 0.)
\<close>

theorem C5_front_back_null_deref:
  "front [] LinkedList_ctor = Inl NullDeref \<and> back [] LinkedList_ctor = Inl NullDeref \<and>
   cpp_run [Ctor 0, Front 0] (start []) = Some (Inl NullDeref) \<and>
   cpp_run [Ctor 0, Back 0] (start []) = Some (Inl NullDeref) \<and>
   ll_front [] ll_init (Some (3::nat)) = Inr (0, None) \<and>
   ll_back [] ll_init (Some (3::nat)) = Inr (0, None)"
  by (simp add: eval_defs)

lemma move_assign_self: "move_assign s l l = Inr s"
  by (simp add: move_assign_def)

text \<open>
  C6. The claim fails on the C function: \<^verbatim>\<open>ll_move_assign_from(&l, &l)\<close> clears the
  list before it copies the struct, so a list holding 1, 2, 3 is empty afterwards.
  (The C++ operator tests \<^verbatim>\<open>this != &other\<close> and leaves the list as it was.)
\<close>

theorem C6_self_move_assign_clears:
  "\<exists>s s'. c_run [LL_push_back 0 1, LL_push_back 0 2, LL_push_back 0 3] (start []) = Some (Inr s) \<and>
      print_list (nodes s) (lists s 0) = Some (Inr [1, 2, 3]) \<and>
      ll_move_assign_from s 0 0 = Inr s' \<and>
      print_list (nodes s') (lists s' 0) = Some (Inr []) \<and>
      size (lists s' 0) = 0 \<and>
      move_assign s 0 0 = Inr s"
  by (simp add: eval_defs free_nodes.simps print_list_def print_list_loop.simps)

lemma c_copy_step:
  assumes r: "repr s R"
  shows "\<exists>s1 R1. c_step s (LL_copy b a) = Some (Inr s1) \<and> repr s1 R1 \<and>
           (\<forall>j. j \<noteq> b \<longrightarrow> R1 j = R j) \<and> map snd (R1 b) = map snd (R a)"
proof -
  from ll_copy_spec[OF repr_llist[OF r, of a]] obtain h' d zs where
    c: "ll_copy (nodes s) (lists s a) = Some (Inr (h', d))" and l': "llist h' d zs"
    and v: "map snd zs = map snd (R a)"
    and f: "\<forall>b \<in> owned zs. hget (nodes s) b = None"
      "\<forall>b. hget (nodes s) b \<noteq> None \<longrightarrow> hget h' b = hget (nodes s) b" by blast
  have "repr (put_list s b (h', d)) (R(b := zs))"
    by (rule repr_update[OF r l']) (use f in auto)
  with c v show ?thesis
    by (intro exI[of _ "put_list s b (h', d)"] exI[of _ "R(b := zs)"]) simp
qed

lemma cpp_copy_step:
  assumes r: "repr s R"
  shows "\<exists>s1 R1. cpp_step s (Copy_ctor b a) = Some (Inr s1) \<and> repr s1 R1 \<and>
           (\<forall>j. j \<noteq> b \<longrightarrow> R1 j = R j) \<and> map snd (R1 b) = map snd (R a)"
proof -
  from copy_ctor_spec[OF repr_llist[OF r, of a]] obtain h' d zs where
    c: "copy_ctor (nodes s) (lists s a) = Some (Inr (h', d))" and l': "llist h' d zs"
    and v: "map snd zs = map snd (R a)"
    and f: "\<forall>b \<in> owned zs. hget (nodes s) b = None"
      "\<forall>b. hget (nodes s) b \<noteq> None \<longrightarrow> hget h' b = hget (nodes s) b" by blast
  have "repr (put_list s b (h', d)) (R(b := zs))"
    by (rule repr_update[OF r l']) (use f in auto)
  with c v show ?thesis
    by (intro exI[of _ "put_list s b (h', d)"] exI[of _ "R(b := zs)"]) simp
qed

lemma repr_disjoint: "repr s R \<Longrightarrow> i \<noteq> j \<Longrightarrow> owned (R i) \<inter> owned (R j) = {}"
  by (simp add: repr_def)

lemma repr_one_list: "repr one_list ((\<lambda>l. [])(0 := [(0, 7)]))"
  by (auto simp: repr_def one_list_def llist_def ll_init_def hget_def)

text \<open>
  C7. In a state of well-formed lists that share no node, copying list \<open>a\<close> into a
  distinct list \<open>b\<close> (\<^verbatim>\<open>b = ll_copy(&a)\<close>, or the C++ copy constructor) returns, and
  right after it both lists hold the sequence \<open>a\<close> held, in nodes of their own. Every
  following sequence of operations that does not write \<open>b\<close>, whatever it does to \<open>a\<close>,
  runs to completion (in C++: when it calls \<^verbatim>\<open>front()\<close> and \<^verbatim>\<open>back()\<close> on
  non-empty lists only) and leaves the sequence of \<open>b\<close> as it was.
\<close>

theorem C7_copy_independence:
  assumes "repr s R" and "a \<noteq> b"
  shows "(\<exists>s1 R1. c_step s (LL_copy b a) = Some (Inr s1) \<and>
            print_list (nodes s1) (lists s1 a) = Some (Inr (map snd (R a))) \<and>
            print_list (nodes s1) (lists s1 b) = Some (Inr (map snd (R a))) \<and>
            repr s1 R1 \<and> owned (R1 a) \<inter> owned (R1 b) = {} \<and>
            (\<forall>ops. (\<forall>op \<in> set ops. b \<notin> c_writes op) \<longrightarrow>
               (\<exists>s2. c_run ops s1 = Some (Inr s2) \<and>
                  print_list (nodes s2) (lists s2 b) = Some (Inr (map snd (R a)))))) \<and>
         (\<exists>s1 R1. cpp_step s (Copy_ctor b a) = Some (Inr s1) \<and>
            toVector (nodes s1) (lists s1 a) = Some (Inr (map snd (R a))) \<and>
            toVector (nodes s1) (lists s1 b) = Some (Inr (map snd (R a))) \<and>
            repr s1 R1 \<and> owned (R1 a) \<inter> owned (R1 b) = {} \<and>
            (\<forall>ops. (\<forall>op \<in> set ops. b \<notin> cpp_writes op) \<and> cpp_calls_ok s1 ops \<longrightarrow>
               (\<exists>s2. cpp_run ops s1 = Some (Inr s2) \<and>
                  toVector (nodes s2) (lists s2 b) = Some (Inr (map snd (R a))))))"
proof
  from c_copy_step[OF assms(1), of b a] obtain s1 R1 where
    s1: "c_step s (LL_copy b a) = Some (Inr s1)" "repr s1 R1"
    "\<forall>j. j \<noteq> b \<longrightarrow> R1 j = R j" "map snd (R1 b) = map snd (R a)" by blast
  from s1(3) assms(2) have ra: "R1 a = R a" by simp
  have later: "\<exists>s2. c_run ops s1 = Some (Inr s2) \<and>
                  print_list (nodes s2) (lists s2 b) = Some (Inr (map snd (R a)))"
    if "\<forall>op \<in> set ops. b \<notin> c_writes op" for ops
  proof -
    from c_run_repr[OF s1(2), of ops] obtain s2 R2 where
      s2: "c_run ops s1 = Some (Inr s2)" "repr s2 R2"
      "\<forall>j. j \<notin> \<Union> (c_writes ` set ops) \<longrightarrow> R2 j = R1 j" by blast
    from that s2(3) have "R2 b = R1 b" by auto
    with print_list_spec[OF repr_llist[OF s2(2), of b]] s1(4) s2(1) show ?thesis by simp
  qed
  show "\<exists>s1 R1. c_step s (LL_copy b a) = Some (Inr s1) \<and>
            print_list (nodes s1) (lists s1 a) = Some (Inr (map snd (R a))) \<and>
            print_list (nodes s1) (lists s1 b) = Some (Inr (map snd (R a))) \<and>
            repr s1 R1 \<and> owned (R1 a) \<inter> owned (R1 b) = {} \<and>
            (\<forall>ops. (\<forall>op \<in> set ops. b \<notin> c_writes op) \<longrightarrow>
               (\<exists>s2. c_run ops s1 = Some (Inr s2) \<and>
                  print_list (nodes s2) (lists s2 b) = Some (Inr (map snd (R a)))))"
    using s1(1,2,4) ra later repr_disjoint[OF s1(2) assms(2)]
      print_list_spec[OF repr_llist[OF s1(2), of a]] print_list_spec[OF repr_llist[OF s1(2), of b]]
    by (intro exI[of _ s1] exI[of _ R1]) simp
next
  from cpp_copy_step[OF assms(1), of b a] obtain s1 R1 where
    s1: "cpp_step s (Copy_ctor b a) = Some (Inr s1)" "repr s1 R1"
    "\<forall>j. j \<noteq> b \<longrightarrow> R1 j = R j" "map snd (R1 b) = map snd (R a)" by blast
  from s1(3) assms(2) have ra: "R1 a = R a" by simp
  have later: "\<exists>s2. cpp_run ops s1 = Some (Inr s2) \<and>
                  toVector (nodes s2) (lists s2 b) = Some (Inr (map snd (R a)))"
    if "\<forall>op \<in> set ops. b \<notin> cpp_writes op" "cpp_calls_ok s1 ops" for ops
  proof -
    from cpp_run_repr[OF s1(2) that(2)] obtain s2 R2 where
      s2: "cpp_run ops s1 = Some (Inr s2)" "repr s2 R2"
      "\<forall>j. j \<notin> \<Union> (cpp_writes ` set ops) \<longrightarrow> R2 j = R1 j" by blast
    from that(1) s2(3) have "R2 b = R1 b" by auto
    with toVector_spec[OF repr_llist[OF s2(2), of b]] s1(4) s2(1) show ?thesis by simp
  qed
  show "\<exists>s1 R1. cpp_step s (Copy_ctor b a) = Some (Inr s1) \<and>
            toVector (nodes s1) (lists s1 a) = Some (Inr (map snd (R a))) \<and>
            toVector (nodes s1) (lists s1 b) = Some (Inr (map snd (R a))) \<and>
            repr s1 R1 \<and> owned (R1 a) \<inter> owned (R1 b) = {} \<and>
            (\<forall>ops. (\<forall>op \<in> set ops. b \<notin> cpp_writes op) \<and> cpp_calls_ok s1 ops \<longrightarrow>
               (\<exists>s2. cpp_run ops s1 = Some (Inr s2) \<and>
                  toVector (nodes s2) (lists s2 b) = Some (Inr (map snd (R a)))))"
    using s1(1,2,4) ra later repr_disjoint[OF s1(2) assms(2)]
      toVector_spec[OF repr_llist[OF s1(2), of a]] toVector_spec[OF repr_llist[OF s1(2), of b]]
    by (intro exI[of _ s1] exI[of _ R1]) simp
qed

theorem C7_copy_independence_witness:
  "repr one_list ((\<lambda>l. [])(0 := [(0, 7)])) \<and>
   (\<exists>s1. c_step one_list (LL_copy 1 0) = Some (Inr s1) \<and>
      print_list (nodes s1) (lists s1 0) = Some (Inr [7]) \<and>
      print_list (nodes s1) (lists s1 1) = Some (Inr [7]) \<and>
      (\<exists>s2. c_run [LL_push_back 0 40, LL_erase 0 0, LL_clear 0] s1 = Some (Inr s2) \<and>
         print_list (nodes s2) (lists s2 1) = Some (Inr [7]))) \<and>
   (\<exists>s1. cpp_step one_list (Copy_ctor 1 0) = Some (Inr s1) \<and>
      toVector (nodes s1) (lists s1 0) = Some (Inr [7]) \<and>
      toVector (nodes s1) (lists s1 1) = Some (Inr [7]) \<and>
      (\<exists>s2. cpp_run [Push_back 0 40, Erase 0 0, Clear 0] s1 = Some (Inr s2) \<and>
         toVector (nodes s2) (lists s2 1) = Some (Inr [7])))"
proof -
  have ne: "(0::nat) \<noteq> 1" by simp
  note T = C7_copy_independence[OF repr_one_list ne]
  have w: "\<forall>op \<in> set [LL_push_back 0 40, LL_erase 0 0, LL_clear 0]. (1::nat) \<notin> c_writes op"
    by simp
  have w': "\<forall>op \<in> set [Push_back 0 40, Erase 0 0, Clear 0]. (1::nat) \<notin> cpp_writes op"
    by simp
  have ok: "cpp_calls_ok s1 [Push_back 0 40, Erase 0 0, Clear 0]" for s1
    by (simp split: option.splits sum.splits)
  from T obtain s1 where
    "c_step one_list (LL_copy 1 0) = Some (Inr s1)"
    "print_list (nodes s1) (lists s1 0) = Some (Inr [7])"
    "print_list (nodes s1) (lists s1 1) = Some (Inr [7])"
    "\<forall>ops. (\<forall>op \<in> set ops. 1 \<notin> c_writes op) \<longrightarrow>
       (\<exists>s2. c_run ops s1 = Some (Inr s2) \<and>
          print_list (nodes s2) (lists s2 1) = Some (Inr [7]))"
    by (elim conjE exE) simp
  with w have C: "\<exists>s1. c_step one_list (LL_copy 1 0) = Some (Inr s1) \<and>
      print_list (nodes s1) (lists s1 0) = Some (Inr [7]) \<and>
      print_list (nodes s1) (lists s1 1) = Some (Inr [7]) \<and>
      (\<exists>s2. c_run [LL_push_back 0 40, LL_erase 0 0, LL_clear 0] s1 = Some (Inr s2) \<and>
         print_list (nodes s2) (lists s2 1) = Some (Inr [7]))"
    by blast
  from T obtain t1 where
    "cpp_step one_list (Copy_ctor 1 0) = Some (Inr t1)"
    "toVector (nodes t1) (lists t1 0) = Some (Inr [7])"
    "toVector (nodes t1) (lists t1 1) = Some (Inr [7])"
    "\<forall>ops. (\<forall>op \<in> set ops. 1 \<notin> cpp_writes op) \<and> cpp_calls_ok t1 ops \<longrightarrow>
       (\<exists>s2. cpp_run ops t1 = Some (Inr s2) \<and>
          toVector (nodes s2) (lists s2 1) = Some (Inr [7]))"
    by (elim conjE exE) simp
  with w' ok have "\<exists>s1. cpp_step one_list (Copy_ctor 1 0) = Some (Inr s1) \<and>
      toVector (nodes s1) (lists s1 0) = Some (Inr [7]) \<and>
      toVector (nodes s1) (lists s1 1) = Some (Inr [7]) \<and>
      (\<exists>s2. cpp_run [Push_back 0 40, Erase 0 0, Clear 0] s1 = Some (Inr s2) \<and>
         toVector (nodes s2) (lists s2 1) = Some (Inr [7]))"
    by blast
  with C repr_one_list show ?thesis by blast
qed

lemma llist_after_push_elsewhere:
  assumes c: "llist h C xs" and e: "llist h A []"
  shows "\<exists>a h' A'. ll_push_back h A v = Inr (h', A') \<and> push_back h A v = Inr (h', A') \<and>
           llist h' A' [(a, v)] \<and> llist h' C xs"
proof -
  from ll_push_back_spec[OF e, of v] obtain a h' A' where
    p: "ll_push_back h A v = Inr (h', A')" "llist h' A' [(a, v)]" "hget h a = None"
    "\<forall>b. b \<noteq> a \<longrightarrow> hget h' b = hget h b" by auto
  have "hget h' b = hget h b" if "b \<in> owned xs" for b
    using llist_live[OF c that] p(3,4) by (cases "b = a") auto
  then have "llist h' C xs = llist h C xs" by (rule llist_cong_heap)
  with c p show ?thesis by (auto simp: push_back_eq)
qed

text \<open>
  C8. After \<^verbatim>\<open>C = ll_move_from(&A)\<close>, and after the C++ move constructor, the new
  list holds the sequence \<open>A\<close> held before, and \<open>A\<close> is a well-formed empty list: size 0,
  empty, head and tail null. \<open>A\<close> stays usable: a value pushed onto it yields a
  one-element list and leaves the moved list intact.
\<close>

theorem C8_move_transfers:
  assumes "llist h A xs"
  shows "(\<exists>C A'. ll_move_from A = (C, A') \<and>
            print_list h C = Some (Inr (map snd xs)) \<and> llist h C xs \<and>
            ll_size A' = 0 \<and> ll_empty A' = 1 \<and> head A' = None \<and> tail A' = None \<and>
            llist h A' [] \<and> structural_invariant h A' \<and>
            (\<exists>a h' A''. ll_push_back h A' v = Inr (h', A'') \<and> llist h' A'' [(a, v)] \<and>
               llist h' C xs)) \<and>
         (\<exists>C A'. move_ctor A = (C, A') \<and>
            toVector h C = Some (Inr (map snd xs)) \<and> llist h C xs \<and>
            size_of A' = 0 \<and> empty A' \<and> head A' = None \<and> tail A' = None \<and>
            llist h A' [] \<and> structural_invariant h A' \<and>
            (\<exists>a h' A''. push_back h A' v = Inr (h', A'') \<and> llist h' A'' [(a, v)] \<and>
               llist h' C xs))"
proof -
  have m: "ll_move_from A = (A, ll_init)" "move_ctor A = (A, ll_init)"
    by (simp_all add: ll_move_from_def move_ctor_def LinkedList_overwrite LinkedList_eta ll_init_def)
  have e: "llist h ll_init []" by (rule llist_init)
  have z: "ll_size ll_init = 0" "ll_empty ll_init = 1" "head ll_init = None" "tail ll_init = None"
    "size_of ll_init = 0" "empty ll_init"
    by (simp_all add: ll_init_def ll_size_def ll_empty_def size_of_def empty_def)
  from llist_after_push_elsewhere[OF assms e, of v] obtain a h' A'' where
    p: "ll_push_back h ll_init v = Inr (h', A'')" "push_back h ll_init v = Inr (h', A'')"
    "llist h' A'' [(a, v)]" "llist h' A xs" by blast
  have P: "\<exists>a h' A''. ll_push_back h ll_init v = Inr (h', A'') \<and> llist h' A'' [(a, v)] \<and> llist h' A xs"
    "\<exists>a h' A''. push_back h ll_init v = Inr (h', A'') \<and> llist h' A'' [(a, v)] \<and> llist h' A xs"
    using p by blast+
  show ?thesis
    using m e z P assms print_list_spec[OF assms] toVector_spec[OF assms] llist_structural[OF e]
    by simp
qed

theorem C8_move_transfers_witness:
  "llist [Some \<lparr>value = 7, next = None\<rparr>] \<lparr>head = Some 0, tail = Some 0, size = 1\<rparr> [(0, 7)] \<and>
   (\<exists>C A'. ll_move_from \<lparr>head = Some 0, tail = Some 0, size = 1\<rparr> = (C, A') \<and>
      print_list [Some \<lparr>value = 7, next = None\<rparr>] C = Some (Inr [7]) \<and>
      ll_size A' = 0 \<and> ll_empty A' = 1 \<and> head A' = None \<and> tail A' = None) \<and>
   (\<exists>C A'. move_ctor \<lparr>head = Some 0, tail = Some 0, size = 1\<rparr> = (C, A') \<and>
      toVector [Some \<lparr>value = 7, next = None\<rparr>] C = Some (Inr [7]) \<and>
      size_of A' = 0 \<and> empty A' \<and> head A' = None \<and> tail A' = None)"
proof -
  note T = C8_move_transfers[OF llist_one, of 9]
  from T have "\<exists>C A'. ll_move_from \<lparr>head = Some 0, tail = Some 0, size = 1\<rparr> = (C, A') \<and>
      print_list [Some \<lparr>value = 7, next = None\<rparr>] C = Some (Inr [7]) \<and>
      ll_size A' = 0 \<and> ll_empty A' = 1 \<and> head A' = None \<and> tail A' = None"
    by (elim conjE exE) simp
  moreover from T have "\<exists>C A'. move_ctor \<lparr>head = Some 0, tail = Some 0, size = 1\<rparr> = (C, A') \<and>
      toVector [Some \<lparr>value = 7, next = None\<rparr>] C = Some (Inr [7]) \<and>
      size_of A' = 0 \<and> empty A' \<and> head A' = None \<and> tail A' = None"
    by (elim conjE exE) simp
  ultimately show ?thesis using llist_one by blast
qed

lemma cpp_main_status:
  "snd (cpp_main argv) =
     (if length argv \<ge> 2 \<and> argv ! 1 \<notin> {''task1'', ''task2'', ''task3''} then 2 else 0)"
  by (simp add: cpp_main_def Let_def)

lemma c_main_status: "snd (c_main argv) = 0"
  by (simp add: c_main_def Let_def)

text \<open>
  C9. The claim fails on the C harness: \<^verbatim>\<open>main\<close> of \<^verbatim>\<open>c-linkedlist/main/main.c\<close>
  has no branch for an unrecognised selector. It falls through to the default, runs
  all three groups and exits with status 0. (The C++ \<^verbatim>\<open>main\<close> exits with status 2.)
\<close>

theorem C9_c_main_unknown_selector:
  "c_main [''prog'', ''bogus''] = ([task1_basic_ops, task2_insert_erase, task3_copy_move], 0) \<and>
   cpp_main [''prog'', ''bogus''] = ([], 2)"
  by (simp add: c_main_def cpp_main_def)

text \<open>
  C10. The C functions accept a null output pointer. \<^verbatim>\<open>ll_pop_front\<close> with
  \<^verbatim>\<open>NULL\<close> returns the flag and performs the mutation it performs with a non-null
  pointer, on every state; on every well-formed list \<^verbatim>\<open>ll_pop_front\<close>,
  \<^verbatim>\<open>ll_front\<close> and \<^verbatim>\<open>ll_back\<close> return, with the same flag for \<^verbatim>\<open>NULL\<close> and for a
  non-null pointer. With \<^verbatim>\<open>NULL\<close> nothing is written; with a pointer \<open>p\<close> the only
  write is through \<open>p\<close>, and only on success.
\<close>

theorem C10_null_out_pointer:
  "ll_pop_front h l None =
     (case ll_pop_front h l (Some p) of
        Inl e \<Rightarrow> Inl e
      | Inr (r, w, h', l') \<Rightarrow> Inr (r, None, h', l')) \<and>
   (llist h l xs \<longrightarrow>
      (\<exists>r1 w1 h' l' r2 w2 r3 w3.
         ll_pop_front h l (Some (p::'a)) = Inr (r1, w1, h', l') \<and>
         ll_pop_front h l (None :: 'a option) = Inr (r1, None, h', l') \<and>
         ll_front h l (Some p) = Inr (r2, w2) \<and> ll_front h l (None :: 'a option) = Inr (r2, None) \<and>
         ll_back h l (Some p) = Inr (r3, w3) \<and> ll_back h l (None :: 'a option) = Inr (r3, None) \<and>
         r1 = (if xs = [] then 0 else 1) \<and> r2 = r1 \<and> r3 = r1 \<and>
         w1 = (if xs = [] then None else Some (p, snd (hd xs))) \<and> w2 = w1 \<and>
         w3 = (if xs = [] then None else Some (p, snd (last xs)))))"
proof (intro conjI impI)
  show "ll_pop_front h l None =
     (case ll_pop_front h l (Some p) of
        Inl e \<Rightarrow> Inl e
      | Inr (r, w, h', l') \<Rightarrow> Inr (r, None, h', l'))"
    by (simp add: ll_pop_front_def Let_def split: sum.splits)
next
  assume a: "llist h l xs"
  show "\<exists>r1 w1 h' l' r2 w2 r3 w3.
         ll_pop_front h l (Some (p::'a)) = Inr (r1, w1, h', l') \<and>
         ll_pop_front h l (None :: 'a option) = Inr (r1, None, h', l') \<and>
         ll_front h l (Some p) = Inr (r2, w2) \<and> ll_front h l (None :: 'a option) = Inr (r2, None) \<and>
         ll_back h l (Some p) = Inr (r3, w3) \<and> ll_back h l (None :: 'a option) = Inr (r3, None) \<and>
         r1 = (if xs = [] then 0 else 1) \<and> r2 = r1 \<and> r3 = r1 \<and>
         w1 = (if xs = [] then None else Some (p, snd (hd xs))) \<and> w2 = w1 \<and>
         w3 = (if xs = [] then None else Some (p, snd (last xs)))"
  proof (cases xs)
    case Nil
    with a have "head l = None" "tail l = None" by (simp_all add: llist_def)
    with Nil show ?thesis by (simp add: ll_pop_front_def ll_front_def ll_back_def)
  next
    case (Cons x ys)
    with a have ax: "llist h l (x # ys)" by simp
    from ll_pop_front_spec[OF ax, of "Some p"] ll_pop_front_spec[OF ax, of "None :: 'a option"]
    obtain l1 l2 where
      p1: "ll_pop_front h l (Some p) = Inr (1, Some (p, snd x), h[fst x := None], l1)"
      and p2: "ll_pop_front h l (None :: 'a option) = Inr (1, None, h[fst x := None], l2)"
      by auto
    have "l2 = l1"
      using p1 p2 by (auto simp: ll_pop_front_def Let_def split: if_splits sum.splits)
    from ax obtain n where hd: "head l = Some (fst x)" "hget h (fst x) = Some n" "value n = snd x"
      by (auto simp: llist_def split: option.splits)
    from ax have tl: "tail l = Some (fst (last (x # ys)))" by (simp add: llist_def)
    from llist_tail_live[OF ax tl] obtain m where
      m: "hget h (fst (last (x # ys))) = Some m" "value m = snd (last (x # ys))" by blast
    have f: "ll_front h l (Some p) = Inr (1, Some (p, snd x))" "ll_front h l (None :: 'a option) = Inr (1, None)"
      using hd by (simp_all add: ll_front_def deref_def)
    have b: "ll_back h l (Some p) = Inr (1, Some (p, snd (last (x # ys))))"
      "ll_back h l (None :: 'a option) = Inr (1, None)"
      using tl m by (simp_all add: ll_back_def deref_def)
    show ?thesis
      using p1 p2 \<open>l2 = l1\<close> f b Cons by simp
  qed
qed

theorem C10_null_out_pointer_witness:
  "llist [Some \<lparr>value = 7, next = None\<rparr>] \<lparr>head = Some 0, tail = Some 0, size = 1\<rparr> [(0, 7)] \<and>
   (\<exists>h' l'.
      ll_pop_front [Some \<lparr>value = 7, next = None\<rparr>] \<lparr>head = Some 0, tail = Some 0, size = 1\<rparr>
        (Some (3::nat)) = Inr (1, Some (3, 7), h', l') \<and>
      ll_pop_front [Some \<lparr>value = 7, next = None\<rparr>] \<lparr>head = Some 0, tail = Some 0, size = 1\<rparr>
        (None :: nat option) = Inr (1, None, h', l')) \<and>
   ll_front [Some \<lparr>value = 7, next = None\<rparr>] \<lparr>head = Some 0, tail = Some 0, size = 1\<rparr>
     (Some (3::nat)) = Inr (1, Some (3, 7)) \<and>
   ll_front [Some \<lparr>value = 7, next = None\<rparr>] \<lparr>head = Some 0, tail = Some 0, size = 1\<rparr>
     (None :: nat option) = Inr (1, None) \<and>
   ll_back [Some \<lparr>value = 7, next = None\<rparr>] \<lparr>head = Some 0, tail = Some 0, size = 1\<rparr>
     (Some (3::nat)) = Inr (1, Some (3, 7)) \<and>
   ll_back [Some \<lparr>value = 7, next = None\<rparr>] \<lparr>head = Some 0, tail = Some 0, size = 1\<rparr>
     (None :: nat option) = Inr (1, None)"
proof -
  note T = conjunct2[OF C10_null_out_pointer[of "[Some \<lparr>value = 7, next = None\<rparr>]"
      "\<lparr>head = Some 0, tail = Some 0, size = 1\<rparr>" "3::nat" "[(0, 7)]"], THEN mp, OF llist_one]
  from T show ?thesis using llist_one by (elim exE conjE) simp
qed

end
